theory Spec2Isabelle
  imports Main
begin

section \<open>Text and the Unicode tables\<close>

text \<open>
  A Python \<open>str\<close> is a sequence of Unicode code points. A character is modelled by its
  code point, a text by the list of its code points; \<open>str ''abc''\<close> is the text of an ASCII
  literal.
\<close>

type_synonym codepoint = int

type_synonym ustr = "codepoint list"

definition ord :: "char \<Rightarrow> codepoint" where
  "ord c = of_char c"

definition str :: "string \<Rightarrow> ustr" where
  "str s = map ord s"

definition newline :: codepoint where
  "newline = 10"

text \<open>
  What Python's string methods and its \<open>re\<close> module do with a character is decided by the
  tables of the Unicode character database built into the interpreter. They are a
  parameter of the model: every function that consults them takes them as its first
  argument. A theorem about all texts holds for whatever tables are given, or says what
  it uses of them; a theorem that evaluates the program on a given text does so with the
  tables \<open>latin1\<close> defined below.

  \<^item> \<open>space_ch\<close>: the white space of \<open>str.strip\<close>, \<open>str.split\<close> and of the class \<open>\s\<close>;
  \<^item> \<open>upper_ch\<close>, \<open>lower_ch\<close>, \<open>title_ch\<close>: the upper-case, lower-case and title-case
    characters that \<open>str.isupper\<close> and \<open>str.istitle\<close> look at;
  \<^item> \<open>digit_ch\<close>: the characters \<open>str.isdigit\<close> accepts; \<open>decimal_ch\<close>: the class \<open>\d\<close>;
    \<open>alnum_ch\<close>: the alphanumeric characters, which with the underscore make the class \<open>\w\<close>;
  \<^item> \<open>str_lower\<close>, \<open>str_upper\<close>, \<open>str_title\<close>: the methods \<open>str.lower\<close>, \<open>str.upper\<close> and
    \<open>str.title\<close> (a character may map to several, and to another one at the end of a word);
  \<^item> \<open>ignorecase_eq c x\<close>: under \<open>re.IGNORECASE\<close> the character \<open>c\<close> of the subject matches the
    letter \<open>x\<close> of the pattern.
\<close>

record unicode =
  space_ch :: "codepoint \<Rightarrow> bool"
  upper_ch :: "codepoint \<Rightarrow> bool"
  lower_ch :: "codepoint \<Rightarrow> bool"
  title_ch :: "codepoint \<Rightarrow> bool"
  digit_ch :: "codepoint \<Rightarrow> bool"
  decimal_ch :: "codepoint \<Rightarrow> bool"
  alnum_ch :: "codepoint \<Rightarrow> bool"
  str_lower :: "ustr \<Rightarrow> ustr"
  str_upper :: "ustr \<Rightarrow> ustr"
  str_title :: "ustr \<Rightarrow> ustr"
  ignorecase_eq :: "codepoint \<Rightarrow> codepoint \<Rightarrow> bool"

text \<open>The class \<open>\w\<close>.\<close>

definition is_word :: "unicode \<Rightarrow> codepoint \<Rightarrow> bool" where
  "is_word U c = (alnum_ch U c \<or> c = ord CHR ''_'')"

text \<open>\<open>str.strip()\<close>, \<open>str.rstrip(":")\<close>.\<close>

definition lstrip :: "unicode \<Rightarrow> ustr \<Rightarrow> ustr" where
  "lstrip U s = dropWhile (space_ch U) s"

definition rstrip :: "unicode \<Rightarrow> ustr \<Rightarrow> ustr" where
  "rstrip U s = rev (dropWhile (space_ch U) (rev s))"

definition strip :: "unicode \<Rightarrow> ustr \<Rightarrow> ustr" where
  "strip U s = rstrip U (lstrip U s)"

definition rstrip_colon :: "ustr \<Rightarrow> ustr" where
  "rstrip_colon s = rev (dropWhile (\<lambda>c. c = ord CHR '':'') (rev s))"

text \<open>\<open>str.split("\n")\<close>: the pieces between line feeds; the result is never empty.\<close>

fun split_nl :: "ustr \<Rightarrow> ustr list" where
  "split_nl [] = [[]]"
| "split_nl (c # cs) =
     (if c = newline then [] # split_nl cs
      else (case split_nl cs of l # ls \<Rightarrow> (c # l) # ls | [] \<Rightarrow> [[c]]))"

text \<open>\<open>"\n".join(lines)\<close>.\<close>

fun join_nl :: "ustr list \<Rightarrow> ustr" where
  "join_nl [] = []"
| "join_nl [l] = l"
| "join_nl (l # ls) = l @ newline # join_nl ls"

text \<open>\<open>str.split()\<close>: the maximal runs of characters that are not white space.\<close>

fun split_ws_acc :: "unicode \<Rightarrow> ustr \<Rightarrow> ustr \<Rightarrow> ustr list" where
  "split_ws_acc U w [] = (if w = [] then [] else [rev w])"
| "split_ws_acc U w (c # cs) =
     (if space_ch U c then
        (if w = [] then split_ws_acc U [] cs else rev w # split_ws_acc U [] cs)
      else split_ws_acc U (c # w) cs)"

definition split_ws :: "unicode \<Rightarrow> ustr \<Rightarrow> ustr list" where
  "split_ws U s = split_ws_acc U [] s"

text \<open>
  \<open>str.isupper\<close>, as CPython computes it: a string of one character is upper-case when
  the character is; otherwise no character may be lower-case or title-case and one must
  be upper-case.
\<close>

fun isupper_loop :: "unicode \<Rightarrow> bool \<Rightarrow> ustr \<Rightarrow> bool" where
  "isupper_loop U cased [] = cased"
| "isupper_loop U cased (c # cs) =
     (if lower_ch U c \<or> title_ch U c then False
      else isupper_loop U (cased \<or> upper_ch U c) cs)"

definition isupper :: "unicode \<Rightarrow> ustr \<Rightarrow> bool" where
  "isupper U s = (case s of [c] \<Rightarrow> upper_ch U c | _ \<Rightarrow> isupper_loop U False s)"

text \<open>
  \<open>str.istitle\<close>, as CPython computes it: a string of one character is title-case when
  the character is upper-case or title-case; otherwise the loop below, whose flag says
  whether the previous character was cased.
\<close>

fun istitle_loop :: "unicode \<Rightarrow> bool \<Rightarrow> bool \<Rightarrow> ustr \<Rightarrow> bool" where
  "istitle_loop U cased previous_is_cased [] = cased"
| "istitle_loop U cased previous_is_cased (c # cs) =
     (if upper_ch U c \<or> title_ch U c then
        (if previous_is_cased then False else istitle_loop U True True cs)
      else if lower_ch U c then
        (if \<not> previous_is_cased then False else istitle_loop U True True cs)
      else istitle_loop U cased False cs)"

definition istitle :: "unicode \<Rightarrow> ustr \<Rightarrow> bool" where
  "istitle U s =
     (case s of [c] \<Rightarrow> title_ch U c \<or> upper_ch U c | _ \<Rightarrow> istitle_loop U False False s)"

text \<open>The operator \<open>sub in s\<close> on strings: \<open>sub\<close> occurs in \<open>s\<close> at some position.\<close>

fun startswith :: "ustr \<Rightarrow> ustr \<Rightarrow> bool" where
  "startswith s [] = True"
| "startswith [] (p # ps) = False"
| "startswith (c # cs) (p # ps) = (c = p \<and> startswith cs ps)"

fun contains :: "ustr \<Rightarrow> ustr \<Rightarrow> bool" where
  "contains [] sub = (sub = [])"
| "contains (c # cs) sub = (startswith (c # cs) sub \<or> contains cs sub)"


section \<open>Regular expressions\<close>

text \<open>
  The patterns of the parser are matched by Python's \<open>re\<close> module, a backtracking
  matcher: alternatives are tried from left to right, a repetition takes as many
  characters as it can and gives them back one at a time, and the first way through the
  whole pattern wins. The expressions below are those the parser's patterns are built
  from; every pattern has at most one capturing group. A character class is the set of
  the characters it accepts; \<open>Wb w\<close> is \<open>\b\<close> for the word characters \<open>w\<close>.
\<close>

datatype re =
    Cls "codepoint \<Rightarrow> bool"
  | Rep "codepoint \<Rightarrow> bool" nat "nat option"
  | Cat re re
  | Alt re re
  | Opt re
  | Grp re
  | Bol
  | Eol
  | Wb "codepoint \<Rightarrow> bool"
  | Eps

text \<open>
  A position in the subject: the character before it (for \<open>\b\<close> and \<open>^\<close>), the text
  after it, and what the group has captured so far.
\<close>

datatype mstate = MState (prev: "codepoint option") (rest: ustr) (grp: "ustr option")

text \<open>
  \<open>[class]{lo,hi}\<close>, greedy: \<open>n\<close> characters are taken already; take one more if the
  class and the bound allow, and fall back to stopping here when the rest of the pattern
  (the continuation \<open>k\<close>) fails after that.
\<close>

function rep_greedy ::
  "(codepoint \<Rightarrow> bool) \<Rightarrow> nat \<Rightarrow> nat option \<Rightarrow> nat \<Rightarrow> (mstate \<Rightarrow> mstate option) \<Rightarrow> mstate
     \<Rightarrow> mstate option"
where
  "rep_greedy p lo hi n k (MState pv [] g) = (if lo \<le> n then k (MState pv [] g) else None)"
| "rep_greedy p lo hi n k (MState pv (c # cs) g) =
     (if p c \<and> (case hi of None \<Rightarrow> True | Some h \<Rightarrow> n < h) then
        (case rep_greedy p lo hi (Suc n) k (MState (Some c) cs g) of
           Some r \<Rightarrow> Some r
         | None \<Rightarrow> if lo \<le> n then k (MState pv (c # cs) g) else None)
      else if lo \<le> n then k (MState pv (c # cs) g) else None)"
  by pat_completeness auto
termination
  by (relation "measure (\<lambda>(p, lo, hi, n, k, s). length (rest s))") auto

text \<open>\<open>\b\<close>: exactly one of the two neighbours is a word character.\<close>

definition word_boundary :: "(codepoint \<Rightarrow> bool) \<Rightarrow> mstate \<Rightarrow> bool" where
  "word_boundary w s =
     ((case prev s of None \<Rightarrow> False | Some c \<Rightarrow> w c)
      \<noteq> (case rest s of [] \<Rightarrow> False | c # _ \<Rightarrow> w c))"

text \<open>
  The matcher, in continuation-passing style: \<open>rmatch r k s\<close> matches \<open>r\<close> at \<open>s\<close> and
  hands the position after it to \<open>k\<close>; \<open>None\<close> makes the caller try its next choice.
  \<open>$\<close> matches at the end and before a final line feed.
\<close>

primrec rmatch :: "re \<Rightarrow> (mstate \<Rightarrow> mstate option) \<Rightarrow> mstate \<Rightarrow> mstate option" where
  "rmatch (Cls p) k s =
     (case rest s of
        [] \<Rightarrow> None
      | c # cs \<Rightarrow> if p c then k (MState (Some c) cs (grp s)) else None)"
| "rmatch (Rep p lo hi) k s = rep_greedy p lo hi 0 k s"
| "rmatch (Cat a b) k s = rmatch a (rmatch b k) s"
| "rmatch (Alt a b) k s = (case rmatch a k s of Some r \<Rightarrow> Some r | None \<Rightarrow> rmatch b k s)"
| "rmatch (Opt a) k s = (case rmatch a k s of Some r \<Rightarrow> Some r | None \<Rightarrow> k s)"
| "rmatch (Grp a) k s =
     rmatch a (\<lambda>s'. k (MState (prev s') (rest s')
                 (Some (take (length (rest s) - length (rest s')) (rest s))))) s"
| "rmatch Bol k s = (if prev s = None then k s else None)"
| "rmatch Eol k s = (if rest s = [] \<or> rest s = [newline] then k s else None)"
| "rmatch (Wb w) k s = (if word_boundary w s then k s else None)"
| "rmatch Eps k s = k s"

primrec ngroups :: "re \<Rightarrow> nat" where
  "ngroups (Cls p) = 0"
| "ngroups (Rep p lo hi) = 0"
| "ngroups (Cat a b) = ngroups a + ngroups b"
| "ngroups (Alt a b) = ngroups a + ngroups b"
| "ngroups (Opt a) = ngroups a"
| "ngroups (Grp a) = Suc (ngroups a)"
| "ngroups Bol = 0"
| "ngroups Eol = 0"
| "ngroups (Wb w) = 0"
| "ngroups Eps = 0"

text \<open>
  A match object: \<open>group(0)\<close>, \<open>group(1)\<close> (\<open>None\<close> when the group took no part in the
  match) and the position after the match.
\<close>

record match_obj =
  group0 :: ustr
  group1 :: "ustr option"
  end_prev :: "codepoint option"
  end_rest :: ustr

definition match_at :: "re \<Rightarrow> codepoint option \<Rightarrow> ustr \<Rightarrow> match_obj option" where
  "match_at r pv s =
     (case rmatch r Some (MState pv s None) of
        None \<Rightarrow> None
      | Some fin \<Rightarrow>
          Some \<lparr> group0 = take (length s - length (rest fin)) s, group1 = grp fin,
                 end_prev = prev fin, end_rest = rest fin \<rparr>)"

text \<open>\<open>re.match(pattern, s)\<close>: a match at the start of \<open>s\<close>.\<close>

definition re_match :: "re \<Rightarrow> ustr \<Rightarrow> match_obj option" where
  "re_match r s = match_at r None s"

text \<open>
  The scan of \<open>re.finditer\<close>: the leftmost match, then the leftmost match after it; where
  nothing matches the scan moves on by one character. None of the parser's patterns can
  match the empty string; the scan steps over an empty match by one character as well.
\<close>

function finditer :: "re \<Rightarrow> codepoint option \<Rightarrow> ustr \<Rightarrow> match_obj list" where
  "finditer r pv s =
     (case match_at r pv s of
        None \<Rightarrow> (case s of [] \<Rightarrow> [] | c # cs \<Rightarrow> finditer r (Some c) cs)
      | Some m \<Rightarrow>
          (if group0 m = [] then
             m # (case s of [] \<Rightarrow> [] | c # cs \<Rightarrow> finditer r (Some c) cs)
           else m # finditer r (Some (last (group0 m))) (drop (length (group0 m)) s)))"
  by pat_completeness auto
termination
  by (relation "measure (\<lambda>(r, pv, s). length s)")
     (auto simp: match_at_def split: option.splits)

text \<open>\<open>re.search(pattern, s)\<close> as a truth value.\<close>

definition re_search :: "re \<Rightarrow> ustr \<Rightarrow> bool" where
  "re_search r s = (finditer r None s \<noteq> [])"

text \<open>
  \<open>re.findall(pattern, s)\<close>: for a pattern without a group the matched texts; for a
  pattern with one group the texts of that group, the empty string where the group took
  no part in the match.
\<close>

definition findall :: "re \<Rightarrow> ustr \<Rightarrow> ustr list" where
  "findall r s =
     map (\<lambda>m. if ngroups r = 0 then group0 m
              else (case group1 m of None \<Rightarrow> [] | Some g \<Rightarrow> g))
         (finditer r None s)"

text \<open>
  Pattern syntax: sequences, alternatives, literals. Under \<open>re.IGNORECASE\<close> a letter of
  the pattern matches by the table \<open>ignorecase_eq\<close>, and a character that is not a letter
  matches itself only; the literals of the parser's patterns are ASCII.
\<close>

definition cats :: "re list \<Rightarrow> re" where
  "cats rs = foldr Cat rs Eps"

fun alts :: "re list \<Rightarrow> re" where
  "alts [] = Eps"
| "alts [r] = r"
| "alts (r # rs) = Alt r (alts rs)"

definition chr :: "char \<Rightarrow> re" where
  "chr c = Cls (\<lambda>x. x = ord c)"

definition ascii_letter :: "codepoint \<Rightarrow> bool" where
  "ascii_letter c = ((65 \<le> c \<and> c \<le> 90) \<or> (97 \<le> c \<and> c \<le> 122))"

definition chr_i :: "unicode \<Rightarrow> char \<Rightarrow> re" where
  "chr_i U c =
     (if ascii_letter (ord c) then Cls (\<lambda>x. ignorecase_eq U x (ord c)) else chr c)"

definition lit :: "string \<Rightarrow> re" where
  "lit s = cats (map chr s)"

definition lit_i :: "unicode \<Rightarrow> string \<Rightarrow> re" where
  "lit_i U s = cats (map (chr_i U) s)"

definition one_of :: "string \<Rightarrow> codepoint \<Rightarrow> bool" where
  "one_of s c = (c \<in> set (str s))"

text \<open>The ranges \<open>A-Z\<close>, \<open>a-z\<close> and \<open>0-9\<close> written out in a class.\<close>

definition in_range :: "char \<Rightarrow> char \<Rightarrow> codepoint \<Rightarrow> bool" where
  "in_range a b c = (ord a \<le> c \<and> c \<le> ord b)"

text \<open>\<open>\s+\<close>, \<open>\s*\<close>, and \<open>.\<close> (any character but a line feed).\<close>

definition ws1 :: "unicode \<Rightarrow> re" where
  "ws1 U = Rep (space_ch U) 1 None"

definition ws0 :: "unicode \<Rightarrow> re" where
  "ws0 U = Rep (space_ch U) 0 None"

definition dot :: "codepoint \<Rightarrow> bool" where
  "dot c = (c \<noteq> newline)"

section \<open>Resume parser\<close>

text \<open>
  Modelled from the spec: the class \<open>ResumeSection\<close> of \<open>models/resume_data.py\<close>, a file
  that is not among the sources. Its fields are a name, the raw content string and the
  list of bullet points derived from it; the parser fills in all three.
\<close>

record ResumeSection =
  section_name :: ustr
  content :: ustr
  bullet_points :: "ustr list"

text \<open>
  Modelled from the spec: the class \<open>ParsedResume\<close> of the same file: the raw text, the
  sections in their order, and the contact mapping with at most one value per key.
\<close>

record ParsedResume =
  raw_text :: ustr
  sections :: "ResumeSection list"
  contact_info :: "string \<rightharpoonup> ustr"

text \<open>The exceptions the modelled functions could raise.\<close>

datatype error = AttributeError | ZeroDivisionError

text \<open>\<open>SECTION_PATTERNS\<close>, compiled with \<open>re.IGNORECASE\<close>.\<close>

definition words_i :: "unicode \<Rightarrow> string list \<Rightarrow> re" where
  "words_i U ws = cats (butlast (concat (map (\<lambda>w. [lit_i U w, ws1 U]) ws)))"

definition SECTION_PATTERNS :: "unicode \<Rightarrow> re list" where
  "SECTION_PATTERNS U =
    [Cat Bol (Grp (alts [words_i U [''PROFESSIONAL'', ''SUMMARY''], lit_i U ''SUMMARY'',
                         lit_i U ''PROFILE'', lit_i U ''OBJECTIVE''])),
     Cat Bol (Grp (alts [words_i U [''WORK'', ''EXPERIENCE''], lit_i U ''EXPERIENCE'',
                         words_i U [''EMPLOYMENT'', ''HISTORY''],
                         words_i U [''PROFESSIONAL'', ''EXPERIENCE'']])),
     Cat Bol (Grp (alts [lit_i U ''EDUCATION'', words_i U [''ACADEMIC'', ''BACKGROUND''],
                         words_i U [''ACADEMIC'', ''QUALIFICATIONS'']])),
     Cat Bol (Grp (alts [lit_i U ''SKILLS'', words_i U [''TECHNICAL'', ''SKILLS''],
                         words_i U [''CORE'', ''COMPETENCIES''], lit_i U ''EXPERTISE''])),
     Cat Bol (Grp (alts [lit_i U ''CERTIFICATIONS'', lit_i U ''CERTIFICATES'',
                         words_i U [''PROFESSIONAL'', ''CERTIFICATIONS'']])),
     Cat Bol (Grp (alts [lit_i U ''PROJECTS'', words_i U [''KEY'', ''PROJECTS''],
                         words_i U [''NOTABLE'', ''PROJECTS'']])),
     Cat Bol (Grp (alts [lit_i U ''AWARDS'', lit_i U ''HONORS'', lit_i U ''ACHIEVEMENTS'',
                         lit_i U ''ACCOMPLISHMENTS''])),
     Cat Bol (Grp (alts [lit_i U ''PUBLICATIONS'', lit_i U ''RESEARCH'', lit_i U ''PAPERS''])),
     Cat Bol (Grp (alts [lit_i U ''VOLUNTEER'', words_i U [''VOLUNTEER'', ''EXPERIENCE''],
                         words_i U [''COMMUNITY'', ''SERVICE'']])),
     Cat Bol (Grp (alts [lit_i U ''LANGUAGES'', words_i U [''LANGUAGE'', ''SKILLS'']])),
     Cat Bol (Grp (alts [lit_i U ''INTERESTS'', lit_i U ''HOBBIES''])),
     Cat Bol (Grp (lit_i U ''REFERENCES''))]"

text \<open>
  \<open>EMAIL_PATTERN\<close>, \<open>PHONE_PATTERN\<close>, \<open>URL_PATTERN\<close>, \<open>LINKEDIN_PATTERN\<close> (the last one
  is used with \<open>re.IGNORECASE\<close>), and the phone shape of the name heuristic.
\<close>

definition EMAIL_PATTERN :: "unicode \<Rightarrow> re" where
  "EMAIL_PATTERN U = cats
     [Wb (is_word U),
      Rep (\<lambda>c. in_range CHR ''A'' CHR ''Z'' c \<or> in_range CHR ''a'' CHR ''z'' c
                \<or> in_range CHR ''0'' CHR ''9'' c \<or> one_of ''._%+-'' c) 1 None,
      chr CHR ''@'',
      Rep (\<lambda>c. in_range CHR ''A'' CHR ''Z'' c \<or> in_range CHR ''a'' CHR ''z'' c
                \<or> in_range CHR ''0'' CHR ''9'' c \<or> one_of ''.-'' c) 1 None,
      chr CHR ''.'',
      Rep (\<lambda>c. in_range CHR ''A'' CHR ''Z'' c \<or> c = ord CHR ''|''
                \<or> in_range CHR ''a'' CHR ''z'' c) 2 None,
      Wb (is_word U)]"

definition sep :: "unicode \<Rightarrow> re" where
  "sep U = Opt (Cls (\<lambda>c. one_of ''-.'' c \<or> space_ch U c))"

definition PHONE_PATTERN :: "unicode \<Rightarrow> re" where
  "PHONE_PATTERN U = cats
     [Opt (Grp (cats [Opt (chr CHR ''+''), Rep (decimal_ch U) 1 (Some 3), sep U])),
      Opt (chr CHR ''(''), Rep (decimal_ch U) 3 (Some 3), Opt (chr CHR '')''), sep U,
      Rep (decimal_ch U) 3 (Some 3), sep U, Rep (decimal_ch U) 4 (Some 4)]"

definition url_excluded :: string where
  "url_excluded = [CHR ''<'', CHR ''>'', CHR 0x22, CHR ''{'', CHR ''}'', CHR ''|'', CHR 0x5C,
                   CHR ''^'', CHR 0x60, CHR ''['', CHR '']'']"

definition URL_PATTERN :: "unicode \<Rightarrow> re" where
  "URL_PATTERN U = cats
     [lit ''http'', Opt (chr CHR ''s''), lit ''://'',
      Rep (\<lambda>c. \<not> (space_ch U c \<or> one_of url_excluded c)) 1 None]"

definition LINKEDIN_PATTERN :: "unicode \<Rightarrow> re" where
  "LINKEDIN_PATTERN U = cats
     [lit_i U ''linkedin.com/in/'', Rep (\<lambda>c. is_word U c \<or> c = ord CHR ''-'') 1 None]"

definition NAME_PHONE_PATTERN :: "unicode \<Rightarrow> re" where
  "NAME_PHONE_PATTERN U = cats
     [Rep (decimal_ch U) 3 (Some 3), sep U, Rep (decimal_ch U) 3 (Some 3), sep U,
      Rep (decimal_ch U) 4 (Some 4)]"

text \<open>
  The three patterns of \<open>_extract_bullet_points\<close>. The class of the first one lists the
  bullet, the black circle, the black square, the small black square, the two
  right-pointing triangles, the rightwards arrow, and the hyphen.
\<close>

definition bullet_symbols :: ustr where
  "bullet_symbols = [0x2022, 0x25CF, 0x25A0, 0x25AA, 0x25B8, 0x25BA, 0x2192, ord CHR ''-'']"

definition bullet_patterns :: "unicode \<Rightarrow> re list" where
  "bullet_patterns U =
     [cats [Bol, ws0 U, Cls (\<lambda>c. c \<in> set bullet_symbols), ws1 U, Grp (Rep dot 1 None), Eol],
      cats [Bol, ws0 U, chr CHR ''*'', ws1 U, Grp (Rep dot 1 None), Eol],
      cats [Bol, ws0 U, Rep (decimal_ch U) 1 None, chr CHR ''.'', ws1 U,
            Grp (Rep dot 1 None), Eol]]"

text \<open>
  \<open>_extract_bullet_points\<close>. The inner loop stops at the first pattern that matches;
  \<open>match.group(1).strip()\<close> raises \<open>AttributeError\<close> when the group is \<open>None\<close>.
\<close>

fun first_bullet :: "unicode \<Rightarrow> re list \<Rightarrow> ustr \<Rightarrow> error + ustr option" where
  "first_bullet U [] line = Inr None"
| "first_bullet U (pattern # patterns) line =
     (case re_match pattern line of
        None \<Rightarrow> first_bullet U patterns line
      | Some m \<Rightarrow>
          (case group1 m of
             None \<Rightarrow> Inl AttributeError
           | Some g \<Rightarrow> Inr (Some (strip U g))))"

fun bullets_loop :: "unicode \<Rightarrow> ustr list \<Rightarrow> ustr list \<Rightarrow> error + ustr list" where
  "bullets_loop U [] bullets = Inr bullets"
| "bullets_loop U (line # lines) bullets =
     (case first_bullet U (bullet_patterns U) line of
        Inl e \<Rightarrow> Inl e
      | Inr None \<Rightarrow> bullets_loop U lines bullets
      | Inr (Some b) \<Rightarrow> bullets_loop U lines (bullets @ [b]))"

definition extract_bullet_points :: "unicode \<Rightarrow> ustr \<Rightarrow> error + ustr list" where
  "extract_bullet_points U text = bullets_loop U (split_nl text) []"

text \<open>\<open>_create_section\<close>.\<close>

definition create_section :: "unicode \<Rightarrow> ustr \<Rightarrow> ustr list \<Rightarrow> error + ResumeSection" where
  "create_section U name content_lines =
     (let joined = join_nl content_lines
      in case extract_bullet_points U joined of
           Inl e \<Rightarrow> Inl e
         | Inr bullets \<Rightarrow>
             Inr \<lparr> section_name = name, content = joined, bullet_points = bullets \<rparr>)"

text \<open>\<open>_normalize_section_name\<close>: the first branch of the chain whose test holds.\<close>

definition normalize_section_name :: "unicode \<Rightarrow> ustr \<Rightarrow> ustr" where
  "normalize_section_name U header0 =
     (let header = str_upper U (rstrip_colon (strip U header0))
      in if contains header (str ''SUMMARY'') \<or> contains header (str ''PROFILE'')
            \<or> contains header (str ''OBJECTIVE'') then str ''Professional Summary''
         else if contains header (str ''EXPERIENCE'') \<or> contains header (str ''EMPLOYMENT'')
           then str ''Work Experience''
         else if contains header (str ''EDUCATION'') \<or> contains header (str ''ACADEMIC'')
           then str ''Education''
         else if contains header (str ''SKILL'') \<or> contains header (str ''COMPETENC'')
            \<or> contains header (str ''EXPERTISE'') then str ''Skills''
         else if contains header (str ''CERTIFICATION'')
            \<or> contains header (str ''CERTIFICATE'') then str ''Certifications''
         else if contains header (str ''PROJECT'') then str ''Projects''
         else if contains header (str ''AWARD'') \<or> contains header (str ''HONOR'')
            \<or> contains header (str ''ACHIEVEMENT'') then str ''Awards & Achievements''
         else if contains header (str ''PUBLICATION'') \<or> contains header (str ''RESEARCH'')
           then str ''Publications''
         else if contains header (str ''VOLUNTEER'') \<or> contains header (str ''COMMUNITY'')
           then str ''Volunteer Experience''
         else if contains header (str ''LANGUAGE'') then str ''Languages''
         else if contains header (str ''INTEREST'') \<or> contains header (str ''HOBBIES'')
           then str ''Interests''
         else if contains header (str ''REFERENCE'') then str ''References''
         else str_title U header)"

text \<open>
  \<open>_is_section_header\<close>: a known pattern matches at the start of the line, or the line
  is short and upper-case or title-case.
\<close>

definition matches_known_pattern :: "unicode \<Rightarrow> ustr \<Rightarrow> bool" where
  "matches_known_pattern U line =
     list_ex (\<lambda>pattern. re_match pattern line \<noteq> None) (SECTION_PATTERNS U)"

definition heuristic_header :: "unicode \<Rightarrow> ustr \<Rightarrow> bool" where
  "heuristic_header U line = (length line < 50 \<and> (isupper U line \<or> istitle U line))"

definition is_section_header :: "unicode \<Rightarrow> ustr \<Rightarrow> bool \<times> ustr option" where
  "is_section_header U line =
     (if matches_known_pattern U line then (True, Some (normalize_section_name U line))
      else if heuristic_header U line then
        (True, Some (strip U (if ord CHR '':'' \<in> set line then rstrip_colon line else line)))
      else (False, None))"

text \<open>Truth value of an \<open>Optional[str]\<close>: neither \<open>None\<close> nor the empty string.\<close>

fun truthy :: "ustr option \<Rightarrow> bool" where
  "truthy None = False"
| "truthy (Some s) = (s \<noteq> [])"

text \<open>
  The loop of \<open>_split_into_sections\<close> over the lines, with its three variables
  \<open>sections\<close> (here \<open>secs\<close>), \<open>current_section_name\<close> and \<open>current_content\<close>.
\<close>

fun sections_loop ::
  "unicode \<Rightarrow> ustr list \<Rightarrow> ResumeSection list \<Rightarrow> ustr option \<Rightarrow> ustr list
     \<Rightarrow> error + (ResumeSection list \<times> ustr option \<times> ustr list)"
where
  "sections_loop U [] secs current_section_name current_content =
     Inr (secs, current_section_name, current_content)"
| "sections_loop U (line # lines) secs current_section_name current_content =
     (let stripped_line = strip U line;
          (is_header, name) = is_section_header U stripped_line
      in if is_header \<and> truthy name then
           (if truthy current_section_name \<and> current_content \<noteq> [] then
              (case create_section U (the current_section_name) current_content of
                 Inl e \<Rightarrow> Inl e
               | Inr sec \<Rightarrow> sections_loop U lines (secs @ [sec]) name [])
            else sections_loop U lines secs name [])
         else if truthy current_section_name then
           (if stripped_line \<noteq> [] then
              sections_loop U lines secs current_section_name (current_content @ [line])
            else sections_loop U lines secs current_section_name current_content)
         else sections_loop U lines secs current_section_name current_content)"

definition split_into_sections :: "unicode \<Rightarrow> ustr \<Rightarrow> error + ResumeSection list" where
  "split_into_sections U text =
     (case sections_loop U (split_nl text) [] None [] of
        Inl e \<Rightarrow> Inl e
      | Inr (sections0, current_section_name, current_content) \<Rightarrow>
          (case (if truthy current_section_name \<and> current_content \<noteq> [] then
                   (case create_section U (the current_section_name) current_content of
                      Inl e \<Rightarrow> Inl e
                    | Inr sec \<Rightarrow> Inr (sections0 @ [sec]))
                 else Inr sections0) of
             Inl e \<Rightarrow> Inl e
           | Inr sections1 \<Rightarrow>
               if sections1 = [] then
                 (case extract_bullet_points U text of
                    Inl e \<Rightarrow> Inl e
                  | Inr bullets \<Rightarrow>
                      Inr [\<lparr> section_name = str ''Full Resume'', content = text,
                             bullet_points = bullets \<rparr>])
               else Inr sections1))"

text \<open>\<open>_extract_contact_info\<close>; the name is looked for in the first five lines.\<close>

definition name_candidate :: "unicode \<Rightarrow> ustr \<Rightarrow> bool" where
  "name_candidate U line =
     (line \<noteq> [] \<and> length line < 50 \<and> \<not> list_ex (digit_ch U) line
      \<and> (istitle U line \<or> (isupper U line \<and> length (split_ws U line) \<le> 4))
      \<and> (ord CHR ''@'' \<notin> set line \<and> \<not> re_search (NAME_PHONE_PATTERN U) line))"

fun name_loop :: "unicode \<Rightarrow> ustr list \<Rightarrow> (string \<rightharpoonup> ustr) \<Rightarrow> (string \<rightharpoonup> ustr)" where
  "name_loop U [] info = info"
| "name_loop U (line0 # lines) info =
     (let line = strip U line0
      in if name_candidate U line then info(''name'' \<mapsto> line)
         else name_loop U lines info)"

definition extract_contact_info :: "unicode \<Rightarrow> ustr \<Rightarrow> (string \<rightharpoonup> ustr)" where
  "extract_contact_info U text =
     (let info = Map.empty;
          email_matches = findall (EMAIL_PATTERN U) text;
          info =
            (case email_matches of [] \<Rightarrow> info
             | m # _ \<Rightarrow> info(''email'' \<mapsto> m));
          phone_matches = findall (PHONE_PATTERN U) text;
          info =
            (case phone_matches of [] \<Rightarrow> info
             | phone # _ \<Rightarrow> info(''phone'' \<mapsto> phone));
          linkedin_matches = findall (LINKEDIN_PATTERN U) text;
          info =
            (case linkedin_matches of [] \<Rightarrow> info
             | m # _ \<Rightarrow> info(''linkedin'' \<mapsto> str ''https://'' @ m));
          url_matches = findall (URL_PATTERN U) text;
          other_urls =
            filter (\<lambda>url. \<not> contains (str_lower U url) (str ''linkedin.com'')) url_matches;
          info =
            (case other_urls of [] \<Rightarrow> info
             | url # _ \<Rightarrow> info(''website'' \<mapsto> url))
      in name_loop U (take 5 (split_nl text)) info)"

text \<open>\<open>parse_resume\<close>.\<close>

definition parse_resume :: "unicode \<Rightarrow> ustr \<Rightarrow> error + ParsedResume" where
  "parse_resume U resume_text =
     (let contact = extract_contact_info U resume_text
      in case split_into_sections U resume_text of
           Inl e \<Rightarrow> Inl e
         | Inr secs \<Rightarrow>
             Inr \<lparr> raw_text = resume_text, sections = secs, contact_info = contact \<rparr>)"


section \<open>Keyword matcher\<close>

text \<open>
  Modelled from the spec: the class \<open>JobAnalysis\<close>, declared in a file that is not among
  the sources. The matcher reads \<open>hard_skills\<close>, \<open>soft_skills\<close> and \<open>keywords\<close>, three lists
  of strings.
\<close>

record JobAnalysis =
  hard_skills :: "ustr list"
  soft_skills :: "ustr list"
  qualifications :: "ustr list"
  experience_required :: ustr
  key_responsibilities :: "ustr list"
  "keywords" :: "ustr list"
  culture_keywords :: "ustr list"
  nice_to_have :: "ustr list"
  action_verbs :: "ustr list"
  company_name :: "ustr option"
  job_title :: "ustr option"
  location :: "ustr option"

text \<open>
  The score is a Python \<open>float\<close>. The float operations the function uses are taken as
  parameters: the literal \<open>0.0\<close>, the true division of two integers, the product with
  the integer \<open>100\<close>, and \<open>round(x, ndigits)\<close>.
\<close>

record 'f float_ops =
  float_zero :: "'f"
  int_truediv :: "nat \<Rightarrow> nat \<Rightarrow> 'f"
  mul_int :: "'f \<Rightarrow> nat \<Rightarrow> 'f"
  round_ndigits :: "'f \<Rightarrow> nat \<Rightarrow> 'f"

text \<open>The operator \<open>/\<close> on two integers raises \<open>ZeroDivisionError\<close> on a zero divisor.\<close>

definition truediv :: "'f float_ops \<Rightarrow> nat \<Rightarrow> nat \<Rightarrow> error + 'f" where
  "truediv fl m n = (if n = 0 then Inl ZeroDivisionError else Inr (int_truediv fl m n))"

definition calculate_match_score ::
  "unicode \<Rightarrow> 'f float_ops \<Rightarrow> ustr \<Rightarrow> JobAnalysis \<Rightarrow> error + 'f"
where
  "calculate_match_score U fl resume_text job_analysis =
     (let resume_lower = str_lower U resume_text;
          all_required_items =
            hard_skills job_analysis @ soft_skills job_analysis @ keywords job_analysis
      in if all_required_items = [] then Inr (float_zero fl)
         else
           let matched_count =
                 length (filter (\<lambda>item. contains resume_lower (str_lower U item))
                           all_required_items)
           in case truediv fl matched_count (length all_required_items) of
                Inl e \<Rightarrow> Inl e
              | Inr ratio \<Rightarrow>
                  (let match_percentage = mul_int fl ratio 100
                   in Inr (round_ndigits fl match_percentage 1)))"

section \<open>Tables for the characters below U+0100\<close>

text \<open>
  One instance of the tables, used where a theorem evaluates the program on a given
  text: Python's tables on the code points below \<open>0x100\<close>, and its complete list of white
  space. A character from \<open>0x100\<close> on is treated as a symbol without case.
\<close>

definition latin1_space :: "codepoint \<Rightarrow> bool" where
  "latin1_space c =
     (c \<in> set [0x09, 0x0A, 0x0B, 0x0C, 0x0D, 0x1C, 0x1D, 0x1E, 0x1F, 0x20, 0x85, 0xA0,
                0x1680, 0x2028, 0x2029, 0x202F, 0x205F, 0x3000]
      \<or> (0x2000 \<le> c \<and> c \<le> 0x200A))"

definition latin1_upper :: "codepoint \<Rightarrow> bool" where
  "latin1_upper c = ((0x41 \<le> c \<and> c \<le> 0x5A) \<or> (0xC0 \<le> c \<and> c \<le> 0xDE \<and> c \<noteq> 0xD7))"

definition latin1_lower :: "codepoint \<Rightarrow> bool" where
  "latin1_lower c =
     ((0x61 \<le> c \<and> c \<le> 0x7A) \<or> (0xDF \<le> c \<and> c \<le> 0xFF \<and> c \<noteq> 0xF7)
      \<or> c \<in> set [0xAA, 0xB5, 0xBA])"

definition latin1_decimal :: "codepoint \<Rightarrow> bool" where
  "latin1_decimal c = (0x30 \<le> c \<and> c \<le> 0x39)"

definition latin1_digit :: "codepoint \<Rightarrow> bool" where
  "latin1_digit c = (latin1_decimal c \<or> c \<in> set [0xB2, 0xB3, 0xB9])"

definition latin1_alnum :: "codepoint \<Rightarrow> bool" where
  "latin1_alnum c =
     (latin1_upper c \<or> latin1_lower c \<or> latin1_digit c \<or> c \<in> set [0xBC, 0xBD, 0xBE])"

definition latin1_to_lower :: "codepoint \<Rightarrow> codepoint" where
  "latin1_to_lower c = (if latin1_upper c then c + 0x20 else c)"

text \<open>
  Upper case and title case of one character: the sharp s becomes \<open>SS\<close> and \<open>Ss\<close>, the
  y with diaeresis and the micro sign leave the range.
\<close>

definition latin1_to_upper :: "codepoint \<Rightarrow> ustr" where
  "latin1_to_upper c =
     (if (0x61 \<le> c \<and> c \<le> 0x7A) \<or> (0xE0 \<le> c \<and> c \<le> 0xFE \<and> c \<noteq> 0xF7) then [c - 0x20]
      else if c = 0xDF then [0x53, 0x53]
      else if c = 0xFF then [0x178]
      else if c = 0xB5 then [0x39C]
      else [c])"

definition latin1_to_title :: "codepoint \<Rightarrow> ustr" where
  "latin1_to_title c = (if c = 0xDF then [0x53, 0x73] else latin1_to_upper c)"

fun latin1_title_loop :: "bool \<Rightarrow> ustr \<Rightarrow> ustr" where
  "latin1_title_loop previous_is_cased [] = []"
| "latin1_title_loop previous_is_cased (c # cs) =
     (if previous_is_cased then [latin1_to_lower c] else latin1_to_title c)
       @ latin1_title_loop (latin1_upper c \<or> latin1_lower c) cs"

definition latin1 :: unicode where
  "latin1 =
     \<lparr> space_ch = latin1_space, upper_ch = latin1_upper, lower_ch = latin1_lower,
       title_ch = (\<lambda>c. False), digit_ch = latin1_digit, decimal_ch = latin1_decimal,
       alnum_ch = latin1_alnum,
       str_lower = map latin1_to_lower,
       str_upper = (\<lambda>s. concat (map latin1_to_upper s)),
       str_title = latin1_title_loop False,
       ignorecase_eq = (\<lambda>c x. latin1_to_lower c = latin1_to_lower x) \<rparr>"


section \<open>Notions used in the statements\<close>

text \<open>
  The claim's words for the matcher: an item is matched when its lower-cased form occurs
  as a substring of the lower-cased resume text.
\<close>

definition occurs_in :: "ustr \<Rightarrow> ustr \<Rightarrow> bool" where
  "occurs_in sub s = (\<exists>before after. s = before @ sub @ after)"

definition requirement_list :: "JobAnalysis \<Rightarrow> ustr list" where
  "requirement_list ja = hard_skills ja @ soft_skills ja @ keywords ja"

definition matched_items :: "unicode \<Rightarrow> ustr \<Rightarrow> JobAnalysis \<Rightarrow> ustr list" where
  "matched_items U resume_text ja =
     filter (\<lambda>item. occurs_in (str_lower U item) (str_lower U resume_text))
       (requirement_list ja)"

text \<open>
  A header line is a line at which the loop of the segmenter starts a section:
  \<open>_is_section_header\<close> accepts its stripped form and gives it a name that is not empty.
  A blank line is one that is empty once stripped.
\<close>

definition is_header_line :: "unicode \<Rightarrow> ustr \<Rightarrow> bool" where
  "is_header_line U line =
     (case is_section_header U (strip U line) of
        (is_header, name) \<Rightarrow> is_header \<and> truthy name)"

definition header_name :: "unicode \<Rightarrow> ustr \<Rightarrow> ustr" where
  "header_name U line = the (snd (is_section_header U (strip U line)))"

definition blank :: "unicode \<Rightarrow> ustr \<Rightarrow> bool" where
  "blank U line = (strip U line = [])"

text \<open>
  The lines of a text cut at its header lines: the non-blank lines before the first header,
  and then every header line with the non-blank lines between it and the next header.
\<close>

fun split_blocks :: "unicode \<Rightarrow> ustr list \<Rightarrow> ustr list \<times> (ustr \<times> ustr list) list" where
  "split_blocks U [] = ([], [])"
| "split_blocks U (l # ls) =
     (case split_blocks U ls of (pre, bs) \<Rightarrow>
        if is_header_line U l then ([], (l, pre) # bs)
        else if blank U l then (pre, bs)
        else (l # pre, bs))"

text \<open>The bullets of a text, and the section record built from a name and its lines.\<close>

definition bullets_of :: "unicode \<Rightarrow> ustr \<Rightarrow> ustr list" where
  "bullets_of U t = (case extract_bullet_points U t of Inr bs \<Rightarrow> bs | Inl e \<Rightarrow> [])"

definition mk_section :: "unicode \<Rightarrow> ustr \<Rightarrow> ustr list \<Rightarrow> ResumeSection" where
  "mk_section U name ls =
     \<lparr> section_name = name, content = join_nl ls, bullet_points = bullets_of U (join_nl ls) \<rparr>"

definition emit :: "unicode \<Rightarrow> ustr option \<Rightarrow> ustr list \<Rightarrow> ResumeSection list" where
  "emit U name ls = (if truthy name \<and> ls \<noteq> [] then [mk_section U (the name) ls] else [])"

definition emit_block :: "unicode \<Rightarrow> ustr \<times> ustr list \<Rightarrow> ResumeSection list" where
  "emit_block U b =
     (if snd b \<noteq> [] then [mk_section U (header_name U (fst b)) (snd b)] else [])"

definition loop_result ::
  "unicode \<Rightarrow> ustr list \<Rightarrow> ResumeSection list \<Rightarrow> ustr option \<Rightarrow> ustr list
     \<Rightarrow> ResumeSection list"
where
  "loop_result U lines secs name cont =
     (case split_blocks U lines of (pre, bs) \<Rightarrow>
        secs @ emit U name (if truthy name then cont @ pre else cont)
             @ concat (map (emit_block U) bs))"

text \<open>
  The sections finalized from a text: one for every header line that has lines under it.
  The fallback section holds the whole text.
\<close>

definition finalized :: "unicode \<Rightarrow> ustr \<Rightarrow> ResumeSection list" where
  "finalized U text = concat (map (emit_block U) (snd (split_blocks U (split_nl text))))"

definition fallback_section :: "unicode \<Rightarrow> ustr \<Rightarrow> ResumeSection" where
  "fallback_section U text =
     \<lparr> section_name = str ''Full Resume'', content = text,
       bullet_points = bullets_of U text \<rparr>"

text \<open>A property of patterns: every match has set the group.\<close>

definition sets_group :: "re \<Rightarrow> bool" where
  "sets_group r =
     (\<forall>k s fin. rmatch r k s = Some fin \<longrightarrow> (\<exists>s'. k s' = Some fin \<and> grp s' \<noteq> None))"

text \<open>
  A property of patterns: a match starts with a character of a given kind. What the
  header test asks of the tables for the name it gives to be non-empty: a cased
  character, and a character that matches an ASCII letter under \<open>re.IGNORECASE\<close>, is
  neither white space nor the colon, and the upper-cased, title-cased form of a non-empty
  text is not empty.
\<close>

definition first_in :: "(codepoint \<Rightarrow> bool) \<Rightarrow> re \<Rightarrow> bool" where
  "first_in P r = (\<forall>k s. rmatch r k s \<noteq> None \<longrightarrow> (\<exists>c cs. rest s = c # cs \<and> P c))"

definition letter_like :: "unicode \<Rightarrow> codepoint \<Rightarrow> bool" where
  "letter_like U c =
     (upper_ch U c \<or> lower_ch U c \<or> title_ch U c
      \<or> (\<exists>x. ascii_letter x \<and> ignorecase_eq U c x))"

definition names_ok :: "unicode \<Rightarrow> bool" where
  "names_ok U =
     ((\<forall>c. letter_like U c \<longrightarrow> \<not> space_ch U c \<and> c \<noteq> ord CHR '':'')
      \<and> (\<forall>s. s \<noteq> [] \<longrightarrow> str_title U (str_upper U s) \<noteq> []))"

text \<open>
  A text without header lines: no stripped line matches a known section-title pattern or
  the fallback heuristic. A text of header lines only: every line is a header line or blank.
\<close>

definition no_header_lines :: "unicode \<Rightarrow> ustr \<Rightarrow> bool" where
  "no_header_lines U text =
     list_all (\<lambda>l. \<not> matches_known_pattern U (strip U l) \<and> \<not> heuristic_header U (strip U l))
       (split_nl text)"

definition only_header_lines :: "unicode \<Rightarrow> ustr \<Rightarrow> bool" where
  "only_header_lines U text =
     list_all (\<lambda>l. is_header_line U l \<or> blank U l) (split_nl text)"

text \<open>
  A content line is neither a header line nor blank. The kept lines of a text are its
  content lines after the first header line.
\<close>

definition content_line :: "unicode \<Rightarrow> ustr \<Rightarrow> bool" where
  "content_line U l = (\<not> is_header_line U l \<and> \<not> blank U l)"

definition kept_lines :: "unicode \<Rightarrow> ustr \<Rightarrow> ustr list" where
  "kept_lines U t =
     filter (content_line U) (dropWhile (\<lambda>l. \<not> is_header_line U l) (split_nl t))"

text \<open>
  The blocks whose sections are emitted, the header lines that opened them, and the text
  rebuilt from the emitted sections with those header lines put back before each content
  (the contents alone when there is no header to put back).
\<close>

definition emitted_blocks :: "unicode \<Rightarrow> ustr \<Rightarrow> (ustr \<times> ustr list) list" where
  "emitted_blocks U t = filter (\<lambda>b. snd b \<noteq> []) (snd (split_blocks U (split_nl t)))"

definition original_headers :: "unicode \<Rightarrow> ustr \<Rightarrow> ustr list" where
  "original_headers U t = map fst (emitted_blocks U t)"

definition reinsert_headers :: "ustr list \<Rightarrow> ResumeSection list \<Rightarrow> ustr" where
  "reinsert_headers hs secs =
     (if hs = [] then join_nl (map content secs)
      else join_nl (concat (map (\<lambda>(h, s). [h, content s]) (zip hs secs))))"

definition block_section :: "unicode \<Rightarrow> ustr \<times> ustr list \<Rightarrow> ResumeSection" where
  "block_section U b = mk_section U (header_name U (fst b)) (snd b)"

definition block_lines :: "ustr \<times> ustr list \<Rightarrow> ustr list" where
  "block_lines b = fst b # snd b"

text \<open>
  A line matches a bullet pattern; the text of a line after its leading marker: leading
  white space is dropped, and then the bullet symbol, the asterisk, or the digits and the
  period after them.
\<close>

definition matches_bullet_pattern :: "unicode \<Rightarrow> ustr \<Rightarrow> bool" where
  "matches_bullet_pattern U line =
     list_ex (\<lambda>pattern. re_match pattern line \<noteq> None) (bullet_patterns U)"

definition after_marker :: "unicode \<Rightarrow> ustr \<Rightarrow> ustr" where
  "after_marker U line =
     (case lstrip U line of
        [] \<Rightarrow> []
      | c # cs \<Rightarrow>
          if c \<in> set bullet_symbols \<or> c = ord CHR ''*'' then cs
          else (case dropWhile (decimal_ch U) (c # cs) of [] \<Rightarrow> [] | d # ds \<Rightarrow> ds))"

text \<open>
  What the statement about bullets asks of the tables: a bullet symbol or an asterisk is
  neither white space nor a decimal digit, a decimal digit is not white space, and the
  period is not a decimal digit.
\<close>

definition markers_ok :: "unicode \<Rightarrow> bool" where
  "markers_ok U =
     (list_all (\<lambda>c. \<not> space_ch U c \<and> \<not> decimal_ch U c) (ord CHR ''*'' # bullet_symbols)
      \<and> \<not> decimal_ch U (ord CHR ''.'')
      \<and> (\<forall>c. decimal_ch U c \<longrightarrow> \<not> space_ch U c))"

text \<open>
  What the statement about white-space text asks of the tables: below \<open>0x80\<close> white
  space is one of the ten ASCII white-space characters, and a white-space character is no
  decimal digit and matches no letter under \<open>re.IGNORECASE\<close>.
\<close>

definition ascii_whitespace :: ustr where
  "ascii_whitespace = [0x09, 0x0A, 0x0B, 0x0C, 0x0D, 0x1C, 0x1D, 0x1E, 0x1F, 0x20]"

definition spaces_ok :: "unicode \<Rightarrow> bool" where
  "spaces_ok U =
     (\<forall>c. space_ch U c \<longrightarrow>
        (c < 0x80 \<longrightarrow> c \<in> set ascii_whitespace)
        \<and> \<not> decimal_ch U c
        \<and> (\<forall>x. ascii_letter x \<longrightarrow> \<not> ignorecase_eq U c x))"

text \<open>
  The canonical names with the substrings that select them, in the order in which
  \<open>_normalize_section_name\<close> tests them; the canonical name of a header is that of the
  first entry one of whose substrings occurs in it.
\<close>

definition name_table :: "(string list \<times> string) list" where
  "name_table =
     [([''SUMMARY'', ''PROFILE'', ''OBJECTIVE''], ''Professional Summary''),
      ([''EXPERIENCE'', ''EMPLOYMENT''], ''Work Experience''),
      ([''EDUCATION'', ''ACADEMIC''], ''Education''),
      ([''SKILL'', ''COMPETENC'', ''EXPERTISE''], ''Skills''),
      ([''CERTIFICATION'', ''CERTIFICATE''], ''Certifications''),
      ([''PROJECT''], ''Projects''),
      ([''AWARD'', ''HONOR'', ''ACHIEVEMENT''], ''Awards & Achievements''),
      ([''PUBLICATION'', ''RESEARCH''], ''Publications''),
      ([''VOLUNTEER'', ''COMMUNITY''], ''Volunteer Experience''),
      ([''LANGUAGE''], ''Languages''),
      ([''INTEREST'', ''HOBBIES''], ''Interests''),
      ([''REFERENCE''], ''References'')]"

definition canonical_name :: "ustr \<Rightarrow> ustr option" where
  "canonical_name header =
     map_option (\<lambda>entry. str (snd entry))
       (find (\<lambda>entry. list_ex (\<lambda>sub. occurs_in (str sub) header) (fst entry)) name_table)"

definition upper_header :: "unicode \<Rightarrow> ustr \<Rightarrow> ustr" where
  "upper_header U line = str_upper U (rstrip_colon (strip U line))"


section \<open>The matcher computes the documented score\<close>

lemma startswith_iff: "startswith s p \<longleftrightarrow> (\<exists>after. s = p @ after)"
  by (induction s p rule: startswith.induct) auto

lemma contains_iff: "contains s sub \<longleftrightarrow> occurs_in sub s"
proof (induction s)
  case Nil
  show ?case by (auto simp: occurs_in_def)
next
  case (Cons c cs)
  show ?case
  proof
    assume "contains (c # cs) sub"
    then consider "startswith (c # cs) sub" | "contains cs sub" by auto
    then show "occurs_in sub (c # cs)"
    proof cases
      case 1
      then obtain after where "c # cs = sub @ after" by (auto simp: startswith_iff)
      then have "c # cs = [] @ sub @ after" by simp
      then show ?thesis unfolding occurs_in_def by blast
    next
      case 2
      then obtain b a where "cs = b @ sub @ a" using Cons by (auto simp: occurs_in_def)
      then have "c # cs = (c # b) @ sub @ a" by simp
      then show ?thesis unfolding occurs_in_def by blast
    qed
  next
    assume "occurs_in sub (c # cs)"
    then obtain b a where eq: "c # cs = b @ sub @ a" by (auto simp: occurs_in_def)
    show "contains (c # cs) sub"
    proof (cases b)
      case Nil
      with eq have "startswith (c # cs) sub" by (auto simp: startswith_iff)
      then show ?thesis by simp
    next
      case (Cons b0 bs)
      with eq have "cs = bs @ sub @ a" by simp
      then have "occurs_in sub cs" unfolding occurs_in_def by blast
      with Cons.IH show ?thesis by simp
    qed
  qed
qed

lemma match_score_general:
  "calculate_match_score U fl resume_text ja =
     (let N = length (requirement_list ja);
          M = length (matched_items U resume_text ja)
      in if N = 0 then Inr (float_zero fl)
         else Inr (round_ndigits fl (mul_int fl (int_truediv fl M N) 100) 1))"
  by (simp add: calculate_match_score_def requirement_list_def matched_items_def
        contains_iff Let_def truediv_def)

lemma matched_items_code:
  "matched_items U resume_text ja =
     filter (\<lambda>item. contains (str_lower U resume_text) (str_lower U item)) (requirement_list ja)"
  by (simp add: matched_items_def contains_iff)

lemma match_score_example:
  "calculate_match_score latin1 fl (str ''Ran a caf'' @ [0xE9] @ str '' in Lyon; knows Python'')
     \<lparr> hard_skills = [str ''python''], soft_skills = [str ''Teamwork''],
       qualifications = [], experience_required = [], key_responsibilities = [],
       keywords = [str ''CAF'' @ [0xC9]], culture_keywords = [], nice_to_have = [],
       action_verbs = [], company_name = None, job_title = None, location = None \<rparr>
   = Inr (round_ndigits fl (mul_int fl (int_truediv fl 2 3) 100) 1)"
proof -
  let ?r = "str ''Ran a caf'' @ [0xE9] @ str '' in Lyon; knows Python''"
  let ?ja = "\<lparr> hard_skills = [str ''python''], soft_skills = [str ''Teamwork''],
       qualifications = [], experience_required = [], key_responsibilities = [],
       keywords = [str ''CAF'' @ [0xC9]], culture_keywords = [], nice_to_have = [],
       action_verbs = [], company_name = None, job_title = None, location = None \<rparr>"
  have n: "length (requirement_list ?ja) = 3" by (simp add: requirement_list_def)
  have m: "length (matched_items latin1 ?r ?ja) = 2"
    unfolding matched_items_code by code_simp
  show ?thesis unfolding match_score_general n m by (simp add: Let_def)
qed

text \<open>
  C1. With \<open>N\<close> the length of hard skills, then soft skills, then keywords (duplicates
  kept) and \<open>M\<close> the number of those items whose lower-cased form occurs in the
  lower-cased resume text, the score is \<open>round((M / N) * 100, 1)\<close>, and the literal
  \<open>0.0\<close> when \<open>N = 0\<close>. Lower case is that of \<open>str.lower\<close>: in a resume
  that reads \<open>Ran a cafe in Lyon; knows Python\<close>, its \<open>e\<close> with an acute accent, the items
  \<open>python\<close> and \<open>CAFE\<close> (the capital with the accent) are matched and \<open>Teamwork\<close> is not,
  which gives \<open>round((2 / 3) * 100, 1)\<close>.
\<close>

theorem calculate_match_score_spec:
  "calculate_match_score U fl resume_text ja =
     (let N = length (requirement_list ja);
          M = length (matched_items U resume_text ja)
      in if N = 0 then Inr (float_zero fl)
         else Inr (round_ndigits fl (mul_int fl (int_truediv fl M N) 100) 1)) \<and>
   calculate_match_score latin1 fl (str ''Ran a caf'' @ [0xE9] @ str '' in Lyon; knows Python'')
     \<lparr> hard_skills = [str ''python''], soft_skills = [str ''Teamwork''],
       qualifications = [], experience_required = [], key_responsibilities = [],
       keywords = [str ''CAF'' @ [0xC9]], culture_keywords = [], nice_to_have = [],
       action_verbs = [], company_name = None, job_title = None, location = None \<rparr>
   = Inr (round_ndigits fl (mul_int fl (int_truediv fl 2 3) 100) 1)"
  using match_score_general match_score_example by (rule conjI)
section \<open>Bullet extraction raises no error\<close>

lemma rep_greedy_cont:
  "rep_greedy p lo hi n k s = Some fin \<Longrightarrow> \<exists>s'. k s' = Some fin \<and> grp s' = grp s"
proof (induction p lo hi n k s rule: rep_greedy.induct)
  case (1 p lo hi n k pv g)
  then show ?case by (auto split: if_splits)
next
  case (2 p lo hi n k pv c cs g)
  show ?case
  proof (cases "p c \<and> (case hi of None \<Rightarrow> True | Some h \<Rightarrow> n < h)")
    case True
    show ?thesis
    proof (cases "rep_greedy p lo hi (Suc n) k (MState (Some c) cs g)")
      case None
      with True "2.prems" have "k (MState pv (c # cs) g) = Some fin"
        by (simp split: if_splits)
      then show ?thesis by force
    next
      case (Some r)
      with True "2.prems" have "r = fin" by simp
      with Some "2.IH"[OF True] show ?thesis by simp
    qed
  next
    case False
    with "2.prems" have "k (MState pv (c # cs) g) = Some fin"
      by (simp split: if_splits)
    then show ?thesis by force
  qed
qed

lemma rmatch_cont:
  "rmatch r k s = Some fin \<Longrightarrow> \<exists>s'. k s' = Some fin \<and> (grp s \<noteq> None \<longrightarrow> grp s' \<noteq> None)"
proof (induction r arbitrary: k s)
  case (Cls p)
  then show ?case by (cases "rest s") (auto split: if_splits)
next
  case (Rep p lo hi)
  then show ?case using rep_greedy_cont[of p lo hi 0 k s fin] by auto
next
  case (Cat a b)
  from Cat.prems have "rmatch a (rmatch b k) s = Some fin" by simp
  from Cat.IH(1)[OF this] obtain s1 where
    s1: "rmatch b k s1 = Some fin" "grp s \<noteq> None \<longrightarrow> grp s1 \<noteq> None" by blast
  from Cat.IH(2)[OF s1(1)] s1(2) show ?case by blast
next
  case (Alt a b)
  then show ?case by (cases "rmatch a k s") auto
next
  case (Opt a)
  then show ?case by (cases "rmatch a k s") auto
next
  case (Grp a)
  from Grp.prems Grp.IH[of _ s] show ?case by fastforce
qed (auto split: if_splits)

lemma sets_group_Grp: "sets_group (Grp a)"
  unfolding sets_group_def
proof (intro allI impI)
  fix k s fin assume "rmatch (Grp a) k s = Some fin"
  then show "\<exists>s'. k s' = Some fin \<and> grp s' \<noteq> None"
    using rmatch_cont[of a _ s fin] by fastforce
qed

lemma sets_group_Cat1: "sets_group a \<Longrightarrow> sets_group (Cat a b)"
  unfolding sets_group_def
  by (metis rmatch.simps(3) rmatch_cont)

lemma sets_group_Cat2: "sets_group b \<Longrightarrow> sets_group (Cat a b)"
  unfolding sets_group_def
  by (metis rmatch.simps(3) rmatch_cont)

lemma sets_group_match:
  assumes "sets_group r" "re_match r line = Some m"
  shows "group1 m \<noteq> None"
proof -
  from assms(2) obtain fin where fin: "rmatch r Some (MState None line None) = Some fin"
    and m: "group1 m = grp fin"
    by (auto simp: re_match_def match_at_def split: option.splits)
  from assms(1) fin have "grp fin \<noteq> None" unfolding sets_group_def by blast
  with m show ?thesis by simp
qed

lemma bullet_patterns_set_group: "pattern \<in> set (bullet_patterns U) \<Longrightarrow> sets_group pattern"
  by (auto simp: bullet_patterns_def cats_def)
     (blast intro: sets_group_Cat2 sets_group_Cat1 sets_group_Grp)+

lemma first_bullet_no_error:
  "\<forall>pattern \<in> set ps. sets_group pattern \<Longrightarrow> \<exists>b. first_bullet U ps line = Inr b"
proof (induction ps)
  case Nil
  show ?case by simp
next
  case (Cons p ps)
  show ?case
  proof (cases "re_match p line")
    case None
    with Cons show ?thesis by simp
  next
    case (Some m)
    with Cons.prems sets_group_match[of p line m] show ?thesis by auto
  qed
qed

lemma bullets_loop_no_error: "\<exists>bs. bullets_loop U lines acc = Inr bs"
proof (induction lines arbitrary: acc)
  case Nil
  show ?case by simp
next
  case (Cons l ls)
  obtain b where b: "first_bullet U (bullet_patterns U) l = Inr b"
    using first_bullet_no_error[of "bullet_patterns U" U l] bullet_patterns_set_group by blast
  show ?case using b Cons.IH by (cases b) auto
qed

lemma extract_bullet_points_no_error: "\<exists>bs. extract_bullet_points U text = Inr bs"
  by (simp add: extract_bullet_points_def bullets_loop_no_error)
section \<open>The loop of the segmenter\<close>

lemma extract_bullet_points_eq: "extract_bullet_points U t = Inr (bullets_of U t)"
  using extract_bullet_points_no_error[of U t] by (auto simp: bullets_of_def)

lemma create_section_eq: "create_section U name ls = Inr (mk_section U name ls)"
  by (simp add: create_section_def mk_section_def extract_bullet_points_eq Let_def)

lemma header_line_name:
  "is_header_line U l \<Longrightarrow>
     is_section_header U (strip U l) = (True, Some (header_name U l)) \<and> header_name U l \<noteq> []"
  unfolding is_header_line_def header_name_def
  by (cases "is_section_header U (strip U l)") (auto elim: truthy.elims)

lemma loop_result_header:
  assumes "is_header_line U l"
  shows "loop_result U (l # ls) secs name cont =
         loop_result U ls (secs @ emit U name cont) (Some (header_name U l)) []"
  using assms header_line_name[OF assms]
  by (auto simp: loop_result_def emit_def emit_block_def split: prod.splits)

lemma loop_result_content:
  assumes "\<not> is_header_line U l" "truthy name" "\<not> blank U l"
  shows "loop_result U (l # ls) secs name cont = loop_result U ls secs name (cont @ [l])"
  using assms by (auto simp: loop_result_def emit_def split: prod.splits)

lemma loop_result_skip:
  assumes "\<not> is_header_line U l" "\<not> (truthy name \<and> \<not> blank U l)"
  shows "loop_result U (l # ls) secs name cont = loop_result U ls secs name cont"
  using assms by (auto simp: loop_result_def emit_def split: prod.splits)

lemma sections_loop_eq:
  "\<exists>s' n' c'. sections_loop U lines secs name cont = Inr (s', n', c') \<and>
     s' @ emit U n' c' = loop_result U lines secs name cont"
proof (induction lines arbitrary: secs name cont)
  case Nil
  show ?case by (simp add: loop_result_def)
next
  case (Cons l ls)
  show ?case
  proof (cases "is_header_line U l")
    case True
    note hn = header_line_name[OF True]
    have step: "sections_loop U (l # ls) secs name cont =
                sections_loop U ls (secs @ emit U name cont) (Some (header_name U l)) []"
      using hn by (simp add: create_section_eq emit_def)
    show ?thesis
      unfolding step loop_result_header[OF True]
      by (rule Cons.IH)
  next
    case False
    then have nh: "\<not> (fst (is_section_header U (strip U l))
                        \<and> truthy (snd (is_section_header U (strip U l))))"
      by (simp add: is_header_line_def split: prod.splits)
    show ?thesis
    proof (cases "truthy name \<and> \<not> blank U l")
      case True
      have step: "sections_loop U (l # ls) secs name cont = sections_loop U ls secs name (cont @ [l])"
        using nh True by (cases "is_section_header U (strip U l)") (auto simp: blank_def Let_def)
      show ?thesis
        unfolding step using loop_result_content[OF False, of name ls secs cont] True Cons.IH
        by simp
    next
      case F2: False
      have step: "sections_loop U (l # ls) secs name cont = sections_loop U ls secs name cont"
        using nh F2 by (cases "is_section_header U (strip U l)") (auto simp: blank_def Let_def)
      show ?thesis
        unfolding step loop_result_skip[OF False F2]
        by (rule Cons.IH)
    qed
  qed
qed

lemma split_into_sections_eq:
  "split_into_sections U text =
     Inr (if finalized U text = [] then [fallback_section U text] else finalized U text)"
proof -
  obtain s' n' c' where r: "sections_loop U (split_nl text) [] None [] = Inr (s', n', c')"
    and e: "s' @ emit U n' c' = loop_result U (split_nl text) [] None []"
    using sections_loop_eq[of U "split_nl text" "[]" None "[]"] by auto
  have f: "s' @ emit U n' c' = finalized U text"
    using e by (simp add: finalized_def loop_result_def emit_def split: prod.splits)
  show ?thesis
    using f unfolding split_into_sections_def r
    by (auto simp: create_section_eq emit_def extract_bullet_points_eq fallback_section_def
             split: if_splits)
qed
section \<open>Header lines and the header test\<close>

text \<open>
  With tables like Python's the name that \<open>_is_section_header\<close> gives to a line it
  accepts is never empty, so the header lines are the lines whose stripped form it accepts.
\<close>

lemma in_dropWhile: "c \<in> set s \<Longrightarrow> \<not> P c \<Longrightarrow> c \<in> set (dropWhile P s)"
  by (induction s) auto

lemma in_strip: "c \<in> set s \<Longrightarrow> \<not> space_ch U c \<Longrightarrow> c \<in> set (strip U s)"
  unfolding strip_def rstrip_def lstrip_def
  by (simp add: in_dropWhile)

lemma in_rstrip_colon: "c \<in> set s \<Longrightarrow> c \<noteq> ord CHR '':'' \<Longrightarrow> c \<in> set (rstrip_colon s)"
  unfolding rstrip_colon_def by (simp add: in_dropWhile)

lemma letter_survives:
  assumes "names_ok U" "c \<in> set s" "letter_like U c"
  shows "c \<in> set (strip U (rstrip_colon s))" "c \<in> set (strip U s)"
    "c \<in> set (rstrip_colon (strip U s))"
proof -
  from assms(1,3) have n: "\<not> space_ch U c" "c \<noteq> ord CHR '':''"
    unfolding names_ok_def by blast+
  show "c \<in> set (strip U (rstrip_colon s))" "c \<in> set (strip U s)"
    "c \<in> set (rstrip_colon (strip U s))"
    using assms(2) n by (auto intro!: in_strip in_rstrip_colon)
qed

lemma isupper_loop_cased: "isupper_loop U b s \<Longrightarrow> b \<or> (\<exists>c \<in> set s. upper_ch U c)"
  by (induction s arbitrary: b) (auto split: if_splits)

lemma istitle_loop_cased:
  "istitle_loop U b pc s \<Longrightarrow> b \<or> (\<exists>c \<in> set s. upper_ch U c \<or> lower_ch U c \<or> title_ch U c)"
  by (induction s arbitrary: b pc) (auto split: if_splits)

lemma heuristic_has_letter:
  assumes "isupper U s \<or> istitle U s"
  shows "\<exists>c \<in> set s. letter_like U c"
proof -
  have "\<exists>c \<in> set s. upper_ch U c \<or> lower_ch U c \<or> title_ch U c"
  proof (cases s)
    case Nil
    with assms show ?thesis by (simp add: isupper_def istitle_def)
  next
    case (Cons c cs)
    show ?thesis
    proof (cases cs)
      case Nil
      with Cons assms show ?thesis by (auto simp: isupper_def istitle_def)
    next
      case (Cons d ds)
      with \<open>s = c # cs\<close> assms have "isupper_loop U False s \<or> istitle_loop U False False s"
        by (simp add: isupper_def istitle_def)
      then show ?thesis
        using isupper_loop_cased[of U False s] istitle_loop_cased[of U False False s] by blast
    qed
  qed
  then show ?thesis by (auto simp: letter_like_def)
qed

lemma first_in_Cls: "(\<And>c. p c \<Longrightarrow> P c) \<Longrightarrow> first_in P (Cls p)"
  by (auto simp: first_in_def split: list.splits if_splits)

lemma first_in_Cat: "first_in P a \<Longrightarrow> first_in P (Cat a b)"
  by (auto simp: first_in_def)

lemma first_in_Alt: "first_in P a \<Longrightarrow> first_in P b \<Longrightarrow> first_in P (Alt a b)"
  by (auto simp: first_in_def split: option.splits)

lemma first_in_Grp: "first_in P a \<Longrightarrow> first_in P (Grp a)"
  by (auto simp: first_in_def)

lemma first_in_Bol: "first_in P a \<Longrightarrow> first_in P (Cat Bol a)"
  by (auto simp: first_in_def split: if_splits)

lemma first_in_chr_i: "ascii_letter (ord x) \<Longrightarrow> first_in (letter_like U) (chr_i U x)"
  unfolding chr_i_def
  by (simp, rule first_in_Cls) (auto simp: letter_like_def)

lemma first_in_lit_i: "ascii_letter (ord x) \<Longrightarrow> first_in (letter_like U) (lit_i U (x # xs))"
  by (simp add: lit_i_def cats_def first_in_Cat first_in_chr_i)

lemma first_in_words_i:
  "ascii_letter (ord x) \<Longrightarrow> first_in (letter_like U) (words_i U ((x # xs) # ws))"
proof -
  assume a: "ascii_letter (ord x)"
  have "\<exists>r. words_i U ((x # xs) # ws) = Cat (lit_i U (x # xs)) r"
    by (cases ws) (auto simp: words_i_def cats_def)
  then show ?thesis using first_in_lit_i[OF a] first_in_Cat by auto
qed

lemma section_patterns_first: "p \<in> set (SECTION_PATTERNS U) \<Longrightarrow> first_in (letter_like U) p"
  unfolding SECTION_PATTERNS_def
  by (auto intro!: first_in_Bol first_in_Grp first_in_Alt first_in_lit_i first_in_words_i
      simp: ascii_letter_def ord_def)

lemma known_pattern_letter:
  assumes "matches_known_pattern U line"
  shows "\<exists>c \<in> set line. letter_like U c"
proof -
  from assms obtain p where p: "p \<in> set (SECTION_PATTERNS U)" "re_match p line \<noteq> None"
    by (auto simp: matches_known_pattern_def list_ex_iff)
  then have "rmatch p Some (MState None line None) \<noteq> None"
    by (auto simp: re_match_def match_at_def split: option.splits)
  with section_patterns_first[OF p(1)] obtain c cs where "line = c # cs" "letter_like U c"
    unfolding first_in_def by fastforce
  then show ?thesis by auto
qed

lemma str_nonempty: "s \<noteq> [] \<Longrightarrow> str s \<noteq> []"
  by (simp add: str_def)

lemma normalize_nonempty:
  assumes "names_ok U" and "\<exists>c \<in> set line. letter_like U c"
  shows "normalize_section_name U line \<noteq> []"
proof -
  from assms(2) obtain c where c: "c \<in> set line" "letter_like U c" by blast
  have "c \<in> set (rstrip_colon (strip U line))" by (rule letter_survives(3)[OF assms(1) c])
  then have "rstrip_colon (strip U line) \<noteq> []" by auto
  then have "str_title U (str_upper U (rstrip_colon (strip U line))) \<noteq> []"
    using assms(1) unfolding names_ok_def by blast
  then show ?thesis by (simp add: normalize_section_name_def Let_def str_nonempty)
qed

lemma header_name_truthy:
  assumes "names_ok U" and "fst (is_section_header U line)"
  shows "\<exists>n. is_section_header U line = (True, Some n) \<and> n \<noteq> []"
proof (cases "matches_known_pattern U line")
  case True
  then show ?thesis
    using normalize_nonempty[OF assms(1) known_pattern_letter[OF True]]
    by (simp add: is_section_header_def)
next
  case False
  with assms(2) have h: "heuristic_header U line"
    by (auto simp: is_section_header_def split: if_splits)
  then obtain c where c: "c \<in> set line" "letter_like U c"
    using heuristic_has_letter[of U line] by (auto simp: heuristic_header_def)
  have "strip U (if ord CHR '':'' \<in> set line then rstrip_colon line else line) \<noteq> []"
    using letter_survives(1,2)[OF assms(1) c] by auto
  with False h show ?thesis by (simp add: is_section_header_def)
qed

lemma header_line_iff:
  assumes "names_ok U"
  shows "is_header_line U l \<longleftrightarrow> fst (is_section_header U (strip U l))"
proof
  assume "is_header_line U l"
  then show "fst (is_section_header U (strip U l))"
    by (auto simp: is_header_line_def split: prod.splits)
next
  assume "fst (is_section_header U (strip U l))"
  from header_name_truthy[OF assms this] show "is_header_line U l"
    by (auto simp: is_header_line_def)
qed

lemma latin1_upper_nonempty: "s \<noteq> [] \<Longrightarrow> concat (map latin1_to_upper s) \<noteq> []"
  by (cases s) (auto simp: latin1_to_upper_def)

lemma latin1_title_nonempty: "s \<noteq> [] \<Longrightarrow> latin1_title_loop b s \<noteq> []"
  by (cases s) (auto simp: latin1_to_title_def latin1_to_upper_def)

lemma latin1_ignorecase_letter:
  assumes "ascii_letter x" and "latin1_to_lower c = latin1_to_lower x"
  shows "ascii_letter c"
proof -
  from assms(1) have "97 \<le> latin1_to_lower x \<and> latin1_to_lower x \<le> 122"
    unfolding ascii_letter_def latin1_to_lower_def latin1_upper_def by auto
  with assms(2) have "97 \<le> latin1_to_lower c \<and> latin1_to_lower c \<le> 122" by simp
  then show ?thesis
    unfolding ascii_letter_def latin1_to_lower_def latin1_upper_def
    by (cases "(0x41 \<le> c \<and> c \<le> 0x5A) \<or> (0xC0 \<le> c \<and> c \<le> 0xDE \<and> c \<noteq> 0xD7)") auto
qed

lemma latin1_cased_not_space:
  assumes "latin1_upper c \<or> latin1_lower c \<or> ascii_letter c"
  shows "\<not> latin1_space c \<and> c \<noteq> 58"
  using assms
  unfolding latin1_upper_def latin1_lower_def ascii_letter_def latin1_space_def
  by auto

lemma names_ok_latin1: "names_ok latin1"
proof -
  have "\<not> space_ch latin1 c \<and> c \<noteq> ord CHR '':''" if l: "letter_like latin1 c" for c
  proof -
    from l have "latin1_upper c \<or> latin1_lower c \<or> ascii_letter c"
      using latin1_ignorecase_letter[of _ c] by (auto simp: letter_like_def latin1_def)
    from latin1_cased_not_space[OF this] show ?thesis by (simp add: latin1_def ord_def)
  qed
  moreover have "str_title latin1 (str_upper latin1 s) \<noteq> []" if "s \<noteq> []" for s
    using latin1_title_nonempty[OF latin1_upper_nonempty[OF that]] by (simp add: latin1_def)
  ultimately show ?thesis unfolding names_ok_def by blast
qed

lemma header_line_latin1:
  "is_header_line latin1 l \<longleftrightarrow> fst (is_section_header latin1 (strip latin1 l))"
  by (rule header_line_iff[OF names_ok_latin1])
section \<open>The fallback section\<close>

lemma not_header_line:
  "\<not> matches_known_pattern U (strip U l) \<Longrightarrow> \<not> heuristic_header U (strip U l) \<Longrightarrow> \<not> is_header_line U l"
  by (simp add: is_header_line_def is_section_header_def)

lemma split_blocks_no_headers:
  "list_all (\<lambda>l. \<not> is_header_line U l) ls \<Longrightarrow> snd (split_blocks U ls) = []"
  by (induction ls) (auto split: prod.splits)

lemma split_blocks_empty_blocks:
  "list_all (\<lambda>l. is_header_line U l \<or> blank U l) ls \<Longrightarrow>
     fst (split_blocks U ls) = [] \<and> list_all (\<lambda>b. snd b = []) (snd (split_blocks U ls))"
  by (induction ls) (auto split: prod.splits)

lemma emit_empty_blocks: "list_all (\<lambda>b. snd b = []) bs \<Longrightarrow> concat (map (emit_block U) bs) = []"
  by (induction bs) (auto simp: emit_block_def)

lemma split_blocks_only_headers:
  "list_all (\<lambda>l. is_header_line U l \<or> blank U l) ls \<Longrightarrow>
     concat (map (emit_block U) (snd (split_blocks U ls))) = []"
  using split_blocks_empty_blocks emit_empty_blocks by blast

lemma finalized_no_headers: "no_header_lines U text \<Longrightarrow> finalized U text = []"
proof -
  assume "no_header_lines U text"
  then have "list_all (\<lambda>l. \<not> is_header_line U l) (split_nl text)"
    unfolding no_header_lines_def list_all_iff using not_header_line by blast
  then show ?thesis by (simp add: finalized_def split_blocks_no_headers)
qed

text \<open>
  C3, as amended. A text in which no line matches a known section-title pattern or the
  fallback heuristic yields exactly one section, named \<open>Full Resume\<close>, whose content is
  the input text itself, not trimmed.
\<close>

theorem full_resume_when_no_headers:
  "no_header_lines U text \<Longrightarrow>
     \<exists>bs. split_into_sections U text =
           Inr [\<lparr> section_name = str ''Full Resume'', content = text, bullet_points = bs \<rparr>]"
  by (simp add: split_into_sections_eq finalized_no_headers fallback_section_def)

theorem full_resume_when_no_headers_witness:
  "no_header_lines latin1 (str '' hello '') \<and>
   (\<exists>bs. split_into_sections latin1 (str '' hello '') =
           Inr [\<lparr> section_name = str ''Full Resume'', content = str '' hello '', bullet_points = bs \<rparr>])"
proof -
  have h: "no_header_lines latin1 (str '' hello '')" by code_simp
  from full_resume_when_no_headers[OF h] h show ?thesis by simp
qed

text \<open>
  The fallback content of \<open>" hello "\<close> keeps its surrounding blanks, so it differs from
  the trimmed input.
\<close>

theorem fallback_content_untrimmed:
  "no_header_lines latin1 (str '' hello '') \<and>
   split_into_sections latin1 (str '' hello '') =
     Inr [\<lparr> section_name = str ''Full Resume'', content = str '' hello '', bullet_points = [] \<rparr>] \<and>
   strip latin1 (str '' hello '') \<noteq> str '' hello ''"
  by code_simp

text \<open>
  C10. The segmenter returns a non-empty list for every input; the fallback section is
  produced exactly when no section was finalized; an input of header lines only yields the
  single section \<open>Full Resume\<close> whose content is the whole raw input.
\<close>

theorem segmenter_fallback:
  "(\<exists>secs. split_into_sections U text = Inr secs \<and> secs \<noteq> []) \<and>
   split_into_sections U text =
     Inr (if finalized U text = [] then [fallback_section U text] else finalized U text) \<and>
   (only_header_lines U text \<longrightarrow>
      (\<exists>bs. split_into_sections U text =
         Inr [\<lparr> section_name = str ''Full Resume'', content = text, bullet_points = bs \<rparr>]))"
proof (intro conjI impI)
  show "\<exists>secs. split_into_sections U text = Inr secs \<and> secs \<noteq> []"
    by (simp add: split_into_sections_eq)
  show "split_into_sections U text =
     Inr (if finalized U text = [] then [fallback_section U text] else finalized U text)"
    by (rule split_into_sections_eq)
  assume "only_header_lines U text"
  then have "finalized U text = []"
    by (simp add: finalized_def only_header_lines_def split_blocks_only_headers)
  then show "\<exists>bs. split_into_sections U text =
         Inr [\<lparr> section_name = str ''Full Resume'', content = text, bullet_points = bs \<rparr>]"
    by (simp add: split_into_sections_eq fallback_section_def)
qed

theorem segmenter_fallback_witness:
  "only_header_lines latin1 (str ''EDUCATION'' @ [newline] @ str ''Skills:'') \<and>
   (\<exists>bs. split_into_sections latin1 (str ''EDUCATION'' @ [newline] @ str ''Skills:'') =
      Inr [\<lparr> section_name = str ''Full Resume'', content = str ''EDUCATION'' @ [newline] @ str ''Skills:'',
             bullet_points = bs \<rparr>])"
proof -
  have h: "only_header_lines latin1 (str ''EDUCATION'' @ [newline] @ str ''Skills:'')" by code_simp
  from segmenter_fallback[of latin1 "str ''EDUCATION'' @ [newline] @ str ''Skills:''"] h show ?thesis by blast
qed
section \<open>The contact example\<close>

text \<open>
  C5. With the character tables of \<open>latin1\<close>, on the text of the claim the email field is the address; the phone field is the
  empty string, because \<open>re.findall\<close> returns the text of the pattern's only group, the
  optional country code, which takes no part in the match of \<open>415-555-0100\<close>.
\<close>

theorem contact_example_phone_empty:
  "extract_contact_info latin1 (str ''Reach me at jane.doe@example.com or 415-555-0100'') ''email''
     = Some (str ''jane.doe@example.com'') \<and>
   extract_contact_info latin1 (str ''Reach me at jane.doe@example.com or 415-555-0100'') ''phone''
     = Some [] \<and>
   map group0 (finditer (PHONE_PATTERN latin1) None (str ''Reach me at jane.doe@example.com or 415-555-0100''))
     = [(str ''415-555-0100'')]"
  by code_simp
section \<open>Headers recognized by the heuristic\<close>

lemma rstrip_colon_id: "ord CHR '':'' \<notin> set line \<Longrightarrow> rstrip_colon line = line"
proof -
  assume a: "ord CHR '':'' \<notin> set line"
  have "dropWhile (\<lambda>c. c = ord CHR '':'') (rev line) = rev line"
  proof (cases "rev line")
    case Nil
    then show ?thesis by simp
  next
    case (Cons c cs)
    then have "c \<in> set line" by (metis list.set_intros(1) set_rev)
    with a have "c \<noteq> ord CHR '':''" by auto
    with Cons show ?thesis by simp
  qed
  then show ?thesis by (simp add: rstrip_colon_def)
qed

text \<open>
  A text passes the loop of \<open>str.istitle\<close> started with its first flag set when no
  upper-case character follows a cased one and no lower-case character an uncased one.
  This carries over to the text without a suffix or without its leading white space.
\<close>

lemma istitle_loop_mono: "istitle_loop U b pc s \<Longrightarrow> istitle_loop U True pc s"
  by (induction s arbitrary: b pc) (auto split: if_splits)

lemma istitle_loop_prefix: "istitle_loop U True pc (a @ r) \<Longrightarrow> istitle_loop U True pc a"
  by (induction a arbitrary: pc) (auto split: if_splits)

lemma istitle_loop_rev_dropWhile:
  assumes "istitle_loop U True pc s"
  shows "istitle_loop U True pc (rev (dropWhile P (rev s)))"
proof -
  have "rev (takeWhile P (rev s) @ dropWhile P (rev s)) = s"
    by (simp only: takeWhile_dropWhile_id rev_rev_ident)
  then have "s = rev (dropWhile P (rev s)) @ rev (takeWhile P (rev s))"
    by (simp only: rev_append)
  with assms have "istitle_loop U True pc (rev (dropWhile P (rev s)) @ rev (takeWhile P (rev s)))"
    by simp
  then show ?thesis by (rule istitle_loop_prefix)
qed

lemma istitle_loop_lstrip:
  assumes "\<And>c. space_ch U c \<Longrightarrow> \<not> upper_ch U c \<and> \<not> lower_ch U c \<and> \<not> title_ch U c"
  shows "istitle_loop U True False s \<Longrightarrow> istitle_loop U True False (dropWhile (space_ch U) s)"
  using assms by (induction s) auto

lemma istitle_loop_start: "istitle U s \<Longrightarrow> istitle_loop U True False s"
proof (cases s)
  case Nil
  then show ?thesis by simp
next
  case (Cons c cs)
  assume t: "istitle U s"
  show ?thesis
  proof (cases cs)
    case Nil
    with Cons t show ?thesis by (auto simp: istitle_def)
  next
    case (Cons d ds)
    with \<open>s = c # cs\<close> t have "istitle_loop U False False s" by (simp add: istitle_def)
    then show ?thesis by (rule istitle_loop_mono)
  qed
qed

lemma latin1_tables:
  "space_ch latin1 = latin1_space" "upper_ch latin1 = latin1_upper"
  "lower_ch latin1 = latin1_lower" "title_ch latin1 = (\<lambda>c. False)"
  "str_title latin1 = latin1_title_loop False"
  by (simp_all add: latin1_def)

lemma latin1_case_fixed:
  "latin1_upper c \<Longrightarrow> latin1_to_title c = [c]"
  "latin1_lower c \<Longrightarrow> latin1_to_lower c = c"
  "\<not> latin1_upper c \<Longrightarrow> \<not> latin1_lower c \<Longrightarrow> latin1_to_title c = [c] \<and> latin1_to_lower c = c"
  by (auto simp: latin1_upper_def latin1_lower_def latin1_to_title_def latin1_to_upper_def
      latin1_to_lower_def)

lemma latin1_space_uncased: "latin1_space c \<Longrightarrow> \<not> latin1_upper c \<and> \<not> latin1_lower c"
  by (auto simp: latin1_space_def latin1_upper_def latin1_lower_def)

lemma latin1_title_fixed:
  "istitle_loop latin1 True pc s \<Longrightarrow> latin1_title_loop pc s = s"
proof (induction s arbitrary: pc)
  case Nil
  show ?case by simp
next
  case (Cons c cs)
  show ?case
  proof (cases "latin1_upper c")
    case True
    with Cons.prems have np: "\<not> pc" and r: "istitle_loop latin1 True True cs"
      by (auto simp: latin1_tables split: if_splits)
    from Cons.IH[OF r] True np show ?thesis by (simp add: latin1_case_fixed)
  next
    case False
    show ?thesis
    proof (cases "latin1_lower c")
      case True
      with False Cons.prems have p: "pc" and r: "istitle_loop latin1 True True cs"
        by (auto simp: latin1_tables split: if_splits)
      from Cons.IH[OF r] True p show ?thesis by (simp add: latin1_case_fixed)
    next
      case F2: False
      with False Cons.prems have r: "istitle_loop latin1 True False cs"
        by (simp add: latin1_tables)
      from Cons.IH[OF r] False F2 show ?thesis by (simp add: latin1_case_fixed)
    qed
  qed
qed

lemma title_strip_rstrip_colon:
  assumes "istitle latin1 line"
  shows "str_title latin1 (strip latin1 (rstrip_colon line)) = strip latin1 (rstrip_colon line)"
proof -
  from assms have "istitle_loop latin1 True False line" by (rule istitle_loop_start)
  then have "istitle_loop latin1 True False (rstrip_colon line)"
    unfolding rstrip_colon_def by (rule istitle_loop_rev_dropWhile)
  then have "istitle_loop latin1 True False (lstrip latin1 (rstrip_colon line))"
    unfolding lstrip_def
    by (rule istitle_loop_lstrip[rotated]) (simp add: latin1_tables latin1_space_uncased)
  then have "istitle_loop latin1 True False (strip latin1 (rstrip_colon line))"
    unfolding strip_def rstrip_def by (rule istitle_loop_rev_dropWhile)
  then show ?thesis by (simp add: latin1_tables latin1_title_fixed)
qed

text \<open>
  C7, as amended. A header line recognized only by the fallback heuristic gets as its
  section name its own text with trailing colons and surrounding white space removed, in
  the case it is written in. For a title-case header of characters below \<open>U+0100\<close>, where
  the tables \<open>latin1\<close> are those of Python, this is its title-cased text.
\<close>

theorem heuristic_header_name:
  "(\<not> matches_known_pattern U line \<and> heuristic_header U line \<longrightarrow>
      is_section_header U line = (True, Some (strip U (rstrip_colon line)))) \<and>
   (istitle latin1 line \<and> list_all (\<lambda>c. c < 0x100) line \<longrightarrow>
      str_title latin1 (strip latin1 (rstrip_colon line)) = strip latin1 (rstrip_colon line))"
  using rstrip_colon_id[of line] title_strip_rstrip_colon[of line]
  by (auto simp: is_section_header_def)

theorem heuristic_header_name_witness:
  "\<not> matches_known_pattern latin1 (str ''R'' @ [0xE9] @ str ''sum'' @ [0xE9] @ str '':'') \<and>
   heuristic_header latin1 (str ''R'' @ [0xE9] @ str ''sum'' @ [0xE9] @ str '':'') \<and>
   istitle latin1 (str ''R'' @ [0xE9] @ str ''sum'' @ [0xE9] @ str '':'') \<and>
   list_all (\<lambda>c. c < 0x100) (str ''R'' @ [0xE9] @ str ''sum'' @ [0xE9] @ str '':'') \<and>
   is_section_header latin1 (str ''R'' @ [0xE9] @ str ''sum'' @ [0xE9] @ str '':'')
     = (True, Some (str ''R'' @ [0xE9] @ str ''sum'' @ [0xE9])) \<and>
   str_title latin1 (str ''R'' @ [0xE9] @ str ''sum'' @ [0xE9]) = str ''R'' @ [0xE9] @ str ''sum'' @ [0xE9]"
proof -
  let ?line = "str ''R'' @ [0xE9] @ str ''sum'' @ [0xE9] @ str '':''"
  have h: "\<not> matches_known_pattern latin1 ?line" "heuristic_header latin1 ?line"
    "istitle latin1 ?line" "list_all (\<lambda>c. c < 0x100) ?line"
    "strip latin1 (rstrip_colon ?line) = str ''R'' @ [0xE9] @ str ''sum'' @ [0xE9]"
    by code_simp+
  from heuristic_header_name[of latin1 ?line] h show ?thesis by simp
qed

text \<open>
  The header \<open>CONTACT\<close> is recognized by the heuristic alone; its section name is
  \<open>CONTACT\<close>, and its title-cased text is \<open>Contact\<close>.
\<close>

theorem upper_case_header_kept:
  "\<not> matches_known_pattern latin1 (str ''CONTACT'') \<and> heuristic_header latin1 (str ''CONTACT'') \<and>
   is_section_header latin1 (str ''CONTACT'') = (True, Some (str ''CONTACT'')) \<and>
   str_title latin1 (str ''CONTACT'') = str ''Contact'' \<and> str ''CONTACT'' \<noteq> str ''Contact''"
  by code_simp
section \<open>No input raises an error\<close>

lemma split_nl_nonempty: "split_nl t \<noteq> []"
  by (cases t) (auto split: list.splits)

lemma split_nl_chars: "l \<in> set (split_nl t) \<Longrightarrow> set l \<subseteq> set t"
proof (induction t arbitrary: l)
  case Nil
  then show ?case by simp
next
  case (Cons c cs)
  show ?case
  proof (cases "c = newline")
    case True
    with Cons.prems have "l = [] \<or> l \<in> set (split_nl cs)" by auto
    with Cons.IH show ?thesis by auto
  next
    case False
    obtain l0 ls where s: "split_nl cs = l0 # ls"
      using split_nl_nonempty[of cs] by (cases "split_nl cs") auto
    with False Cons.prems have "l = c # l0 \<or> l \<in> set ls" by auto
    with s Cons.IH[of l0] Cons.IH[of l] show ?thesis by auto
  qed
qed

lemma strip_spaces: "list_all (space_ch U) l \<Longrightarrow> strip U l = []"
proof -
  assume "list_all (space_ch U) l"
  then have "\<forall>x\<in>set l. space_ch U x" by (simp only: list_all_iff)
  then have d: "dropWhile (space_ch U) l = []" by (rule dropWhile_eq_Nil_conv[THEN iffD2])
  show ?thesis unfolding strip_def rstrip_def lstrip_def d by simp
qed

lemma blank_lines: "list_all (space_ch U) text \<Longrightarrow> list_all (blank U) (split_nl text)"
  using split_nl_chars strip_spaces unfolding blank_def list_all_iff by blast

lemma finditer_none:
  assumes "\<And>pv s. list_all (space_ch U) s \<Longrightarrow> match_at r pv s = None"
  shows "list_all (space_ch U) s \<Longrightarrow> finditer r pv s = []"
proof (induction s arbitrary: pv)
  case Nil
  have "match_at r pv [] = None" using assms[of "[]"] by simp
  then show ?case by (subst finditer.simps) simp
next
  case (Cons c cs)
  have "match_at r pv (c # cs) = None" using assms[OF Cons.prems] .
  moreover have "finditer r (Some c) cs = []" using Cons by simp
  ultimately show ?case by (subst finditer.simps) simp
qed

lemma ord_values:
  "ord CHR ''+'' = 43" "ord CHR ''('' = 40" "ord CHR ''h'' = 104" "ord CHR ''l'' = 108"
  "ord CHR ''A'' = 65" "ord CHR ''Z'' = 90" "ord CHR ''a'' = 97" "ord CHR ''z'' = 122"
  "ord CHR ''0'' = 48" "ord CHR ''9'' = 57" "ord CHR ''.'' = 46" "ord CHR ''_'' = 95"
  "ord CHR ''%'' = 37" "ord CHR ''-'' = 45"
  by (simp_all add: ord_def)

lemma space_classes:
  assumes "spaces_ok U" and "space_ch U c"
  shows "\<not> decimal_ch U c"
    "\<not> in_range CHR ''A'' CHR ''Z'' c" "\<not> in_range CHR ''a'' CHR ''z'' c"
    "\<not> in_range CHR ''0'' CHR ''9'' c" "\<not> one_of ''._%+-'' c"
    "c \<noteq> ord CHR ''+''" "c \<noteq> ord CHR ''(''" "c \<noteq> ord CHR ''h''"
    "\<not> ignorecase_eq U c (ord CHR ''l'')"
proof -
  from assms have a: "c < 0x80 \<Longrightarrow> c \<in> set ascii_whitespace"
    and b: "\<not> decimal_ch U c"
    and c: "\<And>x. ascii_letter x \<Longrightarrow> \<not> ignorecase_eq U c x"
    unfolding spaces_ok_def by blast+
  show "\<not> decimal_ch U c" by (rule b)
  show "\<not> in_range CHR ''A'' CHR ''Z'' c" "\<not> in_range CHR ''a'' CHR ''z'' c"
    "\<not> in_range CHR ''0'' CHR ''9'' c" "\<not> one_of ''._%+-'' c"
    "c \<noteq> ord CHR ''+''" "c \<noteq> ord CHR ''(''" "c \<noteq> ord CHR ''h''"
    using a by (auto simp: in_range_def one_of_def str_def ord_values ascii_whitespace_def)
  show "\<not> ignorecase_eq U c (ord CHR ''l'')"
    by (rule c) (simp add: ascii_letter_def ord_values)
qed

lemma email_no_match: "spaces_ok U \<Longrightarrow> list_all (space_ch U) s \<Longrightarrow> match_at (EMAIL_PATTERN U) pv s = None"
  by (cases s) (auto simp: match_at_def EMAIL_PATTERN_def cats_def space_classes)

lemma phone_no_match: "spaces_ok U \<Longrightarrow> list_all (space_ch U) s \<Longrightarrow> match_at (PHONE_PATTERN U) pv s = None"
  by (cases s) (auto simp: match_at_def PHONE_PATTERN_def cats_def chr_def sep_def space_classes)

lemma url_no_match: "spaces_ok U \<Longrightarrow> list_all (space_ch U) s \<Longrightarrow> match_at (URL_PATTERN U) pv s = None"
  by (cases s) (auto simp: match_at_def URL_PATTERN_def cats_def chr_def lit_def space_classes)

lemma cls_first_no_match:
  "list_all (\<lambda>c. \<not> p c) s \<Longrightarrow> rmatch (Cat (Cat (Cls p) r) r') k (MState pv s g) = None"
  by (cases s) auto

lemma linkedin_head:
  "\<exists>r r'. LINKEDIN_PATTERN U = Cat (Cat (Cls (\<lambda>x. ignorecase_eq U x (ord CHR ''l''))) r) r'"
  by (simp add: LINKEDIN_PATTERN_def cats_def lit_i_def chr_i_def ascii_letter_def ord_values)

lemma linkedin_no_match:
  assumes "spaces_ok U" and "list_all (space_ch U) s"
  shows "match_at (LINKEDIN_PATTERN U) pv s = None"
proof -
  obtain r r' where
    p: "LINKEDIN_PATTERN U = Cat (Cat (Cls (\<lambda>x. ignorecase_eq U x (ord CHR ''l''))) r) r'"
    using linkedin_head by blast
  have "list_all (\<lambda>c. \<not> ignorecase_eq U c (ord CHR ''l'')) s"
    using assms space_classes(9)[OF assms(1)] unfolding list_all_iff by blast
  then show ?thesis unfolding match_at_def p by (simp only: cls_first_no_match option.case)
qed

lemma findall_blank:
  assumes "spaces_ok U" and "list_all (space_ch U) s"
  shows "findall (EMAIL_PATTERN U) s = []" "findall (PHONE_PATTERN U) s = []"
    "findall (URL_PATTERN U) s = []" "findall (LINKEDIN_PATTERN U) s = []"
  using assms(2) finditer_none[OF email_no_match[OF assms(1)]]
    finditer_none[OF phone_no_match[OF assms(1)]] finditer_none[OF url_no_match[OF assms(1)]]
    finditer_none[OF linkedin_no_match[OF assms(1)]]
  by (simp_all add: findall_def del: finditer.simps)

lemma name_loop_blank: "list_all (blank U) ls \<Longrightarrow> name_loop U ls info = info"
  by (induction ls) (auto simp: blank_def name_candidate_def Let_def)

lemma contact_info_blank:
  assumes "spaces_ok U" and "list_all (space_ch U) text"
  shows "extract_contact_info U text = Map.empty"
proof -
  have "list_all (blank U) (take 5 (split_nl text))"
    using blank_lines[OF assms(2)] by (auto simp: list_all_iff dest: in_set_takeD)
  then show ?thesis
    using assms
    by (simp add: extract_contact_info_def findall_blank name_loop_blank)
qed

lemma blank_only_header_lines: "list_all (space_ch U) text \<Longrightarrow> only_header_lines U text"
  using blank_lines unfolding only_header_lines_def list_all_iff by blast

lemma finalized_blank:
  assumes "list_all (space_ch U) t"
  shows "finalized U t = []"
  using blank_only_header_lines[OF assms]
  by (simp add: finalized_def only_header_lines_def split_blocks_only_headers)

text \<open>
  C6. Whatever the character tables, the segmenter, the parser and the matcher return a
  value on every input, never an error, and on an empty requirement list the matcher
  returns \<open>0.0\<close>. On a text of white space only (the empty text included) the parser
  returns the single fallback section and the empty contact mapping; this uses of the
  tables that a white-space character is no decimal digit, is not an ASCII character other
  than the ten white-space ones, and is not matched by an ASCII letter when case is
  ignored.
\<close>

theorem parser_and_matcher_never_raise:
  "(\<exists>secs. split_into_sections U text = Inr secs) \<and>
   (\<exists>parsed. parse_resume U text = Inr parsed) \<and>
   (\<exists>score. calculate_match_score U fl text ja = Inr score) \<and>
   (requirement_list ja = [] \<longrightarrow> calculate_match_score U fl text ja = Inr (float_zero fl)) \<and>
   (spaces_ok U \<and> list_all (space_ch U) text \<longrightarrow>
      parse_resume U text =
        Inr \<lparr> raw_text = text, sections = [fallback_section U text], contact_info = Map.empty \<rparr>)"
proof (intro conjI impI)
  show "\<exists>secs. split_into_sections U text = Inr secs"
    by (simp add: split_into_sections_eq)
  show "\<exists>parsed. parse_resume U text = Inr parsed"
    by (simp add: parse_resume_def split_into_sections_eq Let_def)
  show "\<exists>score. calculate_match_score U fl text ja = Inr score"
    by (simp add: calculate_match_score_def truediv_def Let_def)
next
  assume "requirement_list ja = []"
  then show "calculate_match_score U fl text ja = Inr (float_zero fl)"
    by (simp add: calculate_match_score_def requirement_list_def Let_def)
next
  assume "spaces_ok U \<and> list_all (space_ch U) text"
  then show "parse_resume U text =
        Inr \<lparr> raw_text = text, sections = [fallback_section U text], contact_info = Map.empty \<rparr>"
    by (simp add: parse_resume_def split_into_sections_eq finalized_blank contact_info_blank
        Let_def)
qed

lemma spaces_ok_latin1: "spaces_ok latin1"
  unfolding spaces_ok_def
  by (auto simp: latin1_def latin1_space_def latin1_decimal_def ascii_whitespace_def
      ascii_letter_def latin1_to_lower_def latin1_upper_def)

theorem parser_and_matcher_never_raise_witness:
  "requirement_list \<lparr> hard_skills = [], soft_skills = [], qualifications = [],
      experience_required = [], key_responsibilities = [], keywords = [],
      culture_keywords = [], nice_to_have = [], action_verbs = [], company_name = None,
      job_title = None, location = None \<rparr> = [] \<and>
   spaces_ok latin1 \<and> list_all (space_ch latin1) (str ''  '' @ [0xA0]) \<and>
   calculate_match_score latin1 \<lparr> float_zero = 0, int_truediv = (\<lambda>m n. (m * 1000) div n),
       mul_int = (\<lambda>x n. x * n), round_ndigits = (\<lambda>x d. x) \<rparr> (str ''  '' @ [0xA0])
     \<lparr> hard_skills = [], soft_skills = [], qualifications = [],
      experience_required = [], key_responsibilities = [], keywords = [],
      culture_keywords = [], nice_to_have = [], action_verbs = [], company_name = None,
      job_title = None, location = None \<rparr> = Inr (0::nat) \<and>
   parse_resume latin1 (str ''  '' @ [0xA0]) =
     Inr \<lparr> raw_text = (str ''  '' @ [0xA0]), sections = [fallback_section latin1 (str ''  '' @ [0xA0])], contact_info = Map.empty \<rparr>"
proof -
  let ?ja = "\<lparr> hard_skills = [], soft_skills = [], qualifications = [],
      experience_required = [], key_responsibilities = [], keywords = [],
      culture_keywords = [], nice_to_have = [], action_verbs = [], company_name = None,
      job_title = None, location = None \<rparr>"
  let ?fl = "\<lparr> float_zero = 0::nat, int_truediv = (\<lambda>m n. (m * 1000) div n),
       mul_int = (\<lambda>x n. x * n), round_ndigits = (\<lambda>x d. x) \<rparr>"
  have h1: "requirement_list ?ja = []" by (simp add: requirement_list_def)
  have h2: "list_all (space_ch latin1) (str ''  '' @ [0xA0])" by code_simp
  have h3: "spaces_ok latin1" by (rule spaces_ok_latin1)
  from parser_and_matcher_never_raise[of latin1 "str ''  '' @ [0xA0]" ?fl ?ja] h1 h2 h3
  show ?thesis by simp
qed
section \<open>Section contents and the lines of the input\<close>

lemma split_blocks_all_lines:
  "fst (split_blocks U ls) @ concat (map snd (snd (split_blocks U ls))) = filter (content_line U) ls"
  by (induction ls) (auto simp: content_line_def split: prod.splits)

lemma split_blocks_lines:
  "concat (map snd (snd (split_blocks U ls)))
     = filter (content_line U) (dropWhile (\<lambda>l. \<not> is_header_line U l) ls)"
proof (induction ls)
  case Nil
  show ?case by simp
next
  case (Cons l ls)
  show ?case
  proof (cases "is_header_line U l")
    case True
    obtain pre bs where s: "split_blocks U ls = (pre, bs)" by (cases "split_blocks U ls")
    from True have nc: "\<not> content_line U l" by (simp add: content_line_def)
    have "concat (map snd (snd (split_blocks U (l # ls)))) = pre @ concat (map snd bs)"
      using True s by simp
    also have "\<dots> = filter (content_line U) ls"
      using split_blocks_all_lines[of U ls] s by simp
    also have "\<dots> = filter (content_line U) (dropWhile (\<lambda>l. \<not> is_header_line U l) (l # ls))"
      using True nc by simp
    finally show ?thesis .
  next
    case False
    with Cons show ?thesis by (auto split: prod.splits)
  qed
qed

lemma join_nl_Cons: "ls \<noteq> [] \<Longrightarrow> join_nl (l # ls) = l @ newline # join_nl ls"
  by (cases ls) auto

lemma join_nl_append:
  "a \<noteq> [] \<Longrightarrow> b \<noteq> [] \<Longrightarrow> join_nl (a @ b) = join_nl a @ newline # join_nl b"
proof (induction a)
  case Nil
  then show ?case by simp
next
  case (Cons x a)
  show ?case
  proof (cases a)
    case Nil
    with Cons.prems show ?thesis by (simp add: join_nl_Cons)
  next
    case (Cons y ys)
    with Cons.IH Cons.prems show ?thesis by (simp add: join_nl_Cons)
  qed
qed

lemma filter_nonempty_Nil: "filter (\<lambda>g. g \<noteq> []) gs = [] \<longleftrightarrow> concat gs = []"
  by (simp add: filter_empty_conv)

lemma join_groups:
  "join_nl (map join_nl (filter (\<lambda>g. g \<noteq> []) gs)) = join_nl (concat gs)"
proof (induction gs)
  case Nil
  show ?case by simp
next
  case (Cons g gs)
  show ?case
  proof (cases "g = []")
    case True
    with Cons show ?thesis by simp
  next
    case False
    show ?thesis
    proof (cases "concat gs = []")
      case True
      then have fe: "filter (\<lambda>g. g \<noteq> []) gs = []"
        using filter_nonempty_Nil[of gs] by blast
      show ?thesis by (simp add: True fe False)
    next
      case ne: False
      then have F2: "filter (\<lambda>g. g \<noteq> []) gs \<noteq> []"
        using filter_nonempty_Nil[of gs] by blast
      have "join_nl (map join_nl (filter (\<lambda>g. g \<noteq> []) (g # gs)))
            = join_nl (join_nl g # map join_nl (filter (\<lambda>g. g \<noteq> []) gs))"
        using False by simp
      also have "\<dots> = join_nl g @ newline # join_nl (map join_nl (filter (\<lambda>g. g \<noteq> []) gs))"
        by (rule join_nl_Cons) (use F2 in simp)
      also have "\<dots> = join_nl g @ newline # join_nl (concat gs)"
        by (simp only: Cons.IH)
      also have "\<dots> = join_nl (g @ concat gs)"
        by (rule join_nl_append[symmetric]) (fact False, fact ne)
      finally show ?thesis by simp
    qed
  qed
qed

lemma finalized_contents:
  "map content (concat (map (emit_block U) bs)) = map join_nl (filter (\<lambda>g. g \<noteq> []) (map snd bs))"
  by (induction bs) (auto simp: emit_block_def mk_section_def)

lemma finalized_nonempty_iff:
  "concat (map (emit_block U) bs) = [] \<longleftrightarrow> concat (map snd bs) = []"
  by (induction bs) (auto simp: emit_block_def)

lemma split_nl_line: "newline \<notin> set l \<Longrightarrow> split_nl l = [l]"
  by (induction l) auto

lemma split_nl_append:
  "newline \<notin> set l \<Longrightarrow> split_nl (l @ newline # r) = l # split_nl r"
  by (induction l) auto

lemma split_nl_no_newline: "l \<in> set (split_nl t) \<Longrightarrow> newline \<notin> set l"
proof (induction t arbitrary: l)
  case Nil
  then show ?case by simp
next
  case (Cons c cs)
  show ?case
  proof (cases "c = newline")
    case True
    with Cons show ?thesis by auto
  next
    case False
    obtain l0 ls where s: "split_nl cs = l0 # ls"
      using split_nl_nonempty[of cs] by (cases "split_nl cs") auto
    with False Cons.prems have "l = c # l0 \<or> l \<in> set ls" by auto
    with s False Cons.IH[of l0] Cons.IH[of l] show ?thesis by auto
  qed
qed

lemma split_join:
  "ls \<noteq> [] \<Longrightarrow> \<forall>l \<in> set ls. newline \<notin> set l \<Longrightarrow> split_nl (join_nl ls) = ls"
proof (induction ls)
  case Nil
  then show ?case by simp
next
  case (Cons l ls)
  show ?case
  proof (cases ls)
    case Nil
    with Cons.prems show ?thesis by (simp add: split_nl_line)
  next
    case (Cons y ys)
    with Cons.IH Cons.prems show ?thesis by (simp add: split_nl_append)
  qed
qed

lemma split_blocks_content:
  "split_blocks U ls = (pre, bs) \<Longrightarrow>
     set pre \<subseteq> set ls \<and> (\<forall>l \<in> set pre. content_line U l) \<and>
     (\<forall>b \<in> set bs. is_header_line U (fst b) \<and> fst b \<in> set ls \<and> set (snd b) \<subseteq> set ls
                  \<and> (\<forall>l \<in> set (snd b). content_line U l))"
proof (induction ls arbitrary: pre bs)
  case Nil
  then show ?case by simp
next
  case (Cons l ls)
  obtain pre0 bs0 where s: "split_blocks U ls = (pre0, bs0)" by (cases "split_blocks U ls")
  note ih = Cons.IH[OF s]
  show ?case
  proof (cases "is_header_line U l")
    case True
    with Cons.prems s have "pre = []" "bs = (l, pre0) # bs0" by auto
    with ih True show ?thesis by auto
  next
    case False
    show ?thesis
    proof (cases "blank U l")
      case True
      with False Cons.prems s have "pre = pre0" "bs = bs0" by auto
      with ih show ?thesis by auto
    next
      case F2: False
      with False Cons.prems s have "pre = l # pre0" "bs = bs0" by auto
      with ih False F2 show ?thesis by (auto simp: content_line_def)
    qed
  qed
qed

lemma section_lines:
  assumes "\<forall>b \<in> set bs. \<forall>l \<in> set (snd b). newline \<notin> set l"
  shows "concat (map (\<lambda>s. split_nl (content s)) (concat (map (emit_block U) bs)))
           = concat (map snd bs)"
  using assms
  by (induction bs) (auto simp: emit_block_def mk_section_def split_join)

text \<open>
  C2, as amended. When a section is finalized, the contents of the emitted sections,
  joined by line feeds in emission order, are exactly the non-header, non-blank lines that
  follow the first header line, in their order, each in exactly one section; the lines
  before the first header are in no section. When no section is finalized, the single
  section \<open>Full Resume\<close> holds the whole text.
\<close>

theorem section_contents_cover_lines:
  "\<exists>secs. split_into_sections U t = Inr secs \<and>
     (if kept_lines U t = [] then secs = [fallback_section U t] \<and> content (fallback_section U t) = t
      else join_nl (map content secs) = join_nl (kept_lines U t) \<and>
           concat (map (\<lambda>s. split_nl (content s)) secs) = kept_lines U t)"
proof -
  obtain pre bs where sb: "split_blocks U (split_nl t) = (pre, bs)"
    by (cases "split_blocks U (split_nl t)")
  have fin: "finalized U t = concat (map (emit_block U) bs)" by (simp add: finalized_def sb)
  have kept: "kept_lines U t = concat (map snd bs)"
    using split_blocks_lines[of U "split_nl t"] sb by (simp add: kept_lines_def)
  have nl: "\<forall>b \<in> set bs. \<forall>l \<in> set (snd b). newline \<notin> set l"
    using split_blocks_content[OF sb] split_nl_no_newline by blast
  show ?thesis
  proof (cases "kept_lines U t = []")
    case True
    then have "finalized U t = []" using fin kept finalized_nonempty_iff[of U bs] by simp
    with True show ?thesis by (simp add: split_into_sections_eq fallback_section_def)
  next
    case False
    then have ne: "finalized U t \<noteq> []" using fin kept finalized_nonempty_iff[of U bs] by simp
    have "join_nl (map content (finalized U t)) = join_nl (kept_lines U t)"
      unfolding fin kept finalized_contents using join_groups[of "map snd bs"] by simp
    moreover have "concat (map (\<lambda>s. split_nl (content s)) (finalized U t)) = kept_lines U t"
      unfolding fin kept by (rule section_lines[OF nl])
    ultimately show ?thesis using False ne by (simp add: split_into_sections_eq)
  qed
qed

text \<open>
  In the text of the three lines \<open>intro\<close>, \<open>SKILLS\<close>, \<open>java\<close> neither \<open>intro\<close> nor
  \<open>java\<close> is a header or blank; the only section holds \<open>java\<close>, and \<open>intro\<close> is in no
  section.
\<close>

theorem line_before_first_header_dropped:
  "split_nl ((str ''intro'') @ [newline] @ (str ''SKILLS'') @ [newline] @ (str ''java''))
     = [(str ''intro''), (str ''SKILLS''), (str ''java'')] \<and>
   filter (content_line latin1) [(str ''intro''), (str ''SKILLS''), (str ''java'')] = [(str ''intro''), (str ''java'')] \<and>
   split_into_sections latin1 ((str ''intro'') @ [newline] @ (str ''SKILLS'') @ [newline] @ (str ''java''))
     = Inr [\<lparr> section_name = (str ''Skills''), content = (str ''java''), bullet_points = [] \<rparr>] \<and>
   join_nl [(str ''java'')] \<noteq> join_nl [(str ''intro''), (str ''java'')]"
  by code_simp
section \<open>Running the segmenter on its own output\<close>

lemma emit_blocks_filter:
  "concat (map (emit_block U) bs) = map (block_section U) (filter (\<lambda>b. snd b \<noteq> []) bs)"
  by (induction bs) (simp_all add: emit_block_def block_section_def)

lemma finalized_emitted: "finalized U t = map (block_section U) (emitted_blocks U t)"
  by (simp add: finalized_def emitted_blocks_def emit_blocks_filter)

lemma split_blocks_content_prefix:
  "\<forall>l \<in> set c. content_line U l \<Longrightarrow>
     split_blocks U (c @ r) = (c @ fst (split_blocks U r), snd (split_blocks U r))"
  by (induction c) (simp_all add: content_line_def split: prod.splits)

lemma split_blocks_rebuilt:
  "\<forall>b \<in> set eb. is_header_line U (fst b) \<and> (\<forall>l \<in> set (snd b). content_line U l) \<Longrightarrow>
     split_blocks U (concat (map block_lines eb)) = ([], eb)"
proof (induction eb)
  case Nil
  show ?case by simp
next
  case (Cons b eb)
  have ih: "split_blocks U (concat (map block_lines eb)) = ([], eb)" using Cons by simp
  have c: "\<forall>l \<in> set (snd b). content_line U l" and h: "is_header_line U (fst b)"
    using Cons.prems by simp_all
  have r: "split_blocks U (snd b @ concat (map block_lines eb)) = (snd b, eb)"
    using split_blocks_content_prefix[OF c, of "concat (map block_lines eb)"] ih by simp
  have "concat (map block_lines (b # eb)) = fst b # (snd b @ concat (map block_lines eb))"
    by (simp add: block_lines_def)
  then show ?case using h r by simp
qed

lemma rebuilt_text:
  assumes "\<forall>b \<in> set eb. snd b \<noteq> []"
  shows "join_nl (concat (map (\<lambda>b. [fst b, join_nl (snd b)]) eb))
           = join_nl (concat (map block_lines eb))"
proof -
  let ?gs = "concat (map (\<lambda>b. [[fst b], snd b]) eb)"
  have f: "filter (\<lambda>g. g \<noteq> []) ?gs = ?gs"
    using assms by (induction eb) simp_all
  have m: "map join_nl ?gs = concat (map (\<lambda>b. [fst b, join_nl (snd b)]) eb)"
    by (induction eb) simp_all
  have c: "concat ?gs = concat (map block_lines eb)"
    by (induction eb) (simp_all add: block_lines_def)
  from join_groups[of ?gs] show ?thesis by (simp only: f m c)
qed

lemma zip_headers_sections:
  "concat (map (\<lambda>(h, s). [h, content s]) (zip (map fst eb) (map (block_section U) eb)))
     = concat (map (\<lambda>b. [fst b, join_nl (snd b)]) eb)"
  by (induction eb) (simp_all add: block_section_def mk_section_def)

lemma reinsert_rebuilt:
  assumes "eb \<noteq> []" "\<forall>b \<in> set eb. snd b \<noteq> []"
  shows "reinsert_headers (map fst eb) (map (block_section U) eb)
           = join_nl (concat (map block_lines eb))"
  using assms rebuilt_text[OF assms(2)]
  by (simp add: reinsert_headers_def zip_headers_sections)

lemma emitted_blocks_good:
  assumes "b \<in> set (emitted_blocks U t)"
  shows "is_header_line U (fst b)" "\<forall>l \<in> set (snd b). content_line U l" "snd b \<noteq> []"
    "newline \<notin> set (fst b)" "\<forall>l \<in> set (snd b). newline \<notin> set l"
proof -
  obtain pre bs where sb: "split_blocks U (split_nl t) = (pre, bs)"
    by (cases "split_blocks U (split_nl t)")
  from assms sb have b: "b \<in> set bs" "snd b \<noteq> []" by (auto simp: emitted_blocks_def)
  from split_blocks_content[OF sb] b(1)
  have g: "is_header_line U (fst b)" "fst b \<in> set (split_nl t)" "set (snd b) \<subseteq> set (split_nl t)"
    "\<forall>l \<in> set (snd b). content_line U l" by blast+
  show "is_header_line U (fst b)" "\<forall>l \<in> set (snd b). content_line U l" "snd b \<noteq> []"
    using g b by blast+
  show "newline \<notin> set (fst b)" using g(2) by (rule split_nl_no_newline)
  show "\<forall>l \<in> set (snd b). newline \<notin> set l" using g(3) split_nl_no_newline by blast
qed

lemma rebuilt_lines:
  assumes "eb = emitted_blocks U t" "eb \<noteq> []"
  shows "split_nl (join_nl (concat (map block_lines eb))) = concat (map block_lines eb)"
proof (rule split_join)
  from assms(2) obtain b eb' where "eb = b # eb'" by (cases eb) auto
  then show "concat (map block_lines eb) \<noteq> []" by (simp add: block_lines_def)
  show "\<forall>l \<in> set (concat (map block_lines eb)). newline \<notin> set l"
    using emitted_blocks_good(4,5)[of _ U t] assms(1) by (auto simp: block_lines_def)
qed

text \<open>
  C9. Running the segmenter again on the text rebuilt from its emitted sections, each
  content preceded by the header line that opened it, yields the same sections: the same
  names with the same contents, in the same order.
\<close>

theorem segmenter_idempotent:
  "\<exists>secs. split_into_sections U t = Inr secs \<and>
     split_into_sections U (reinsert_headers (original_headers U t) secs) = Inr secs"
proof (cases "emitted_blocks U t = []")
  case True
  then have f: "finalized U t = []" by (simp add: finalized_emitted)
  have "reinsert_headers (original_headers U t) [fallback_section U t] = t"
    using True by (simp add: reinsert_headers_def original_headers_def fallback_section_def)
  with f show ?thesis by (simp add: split_into_sections_eq)
next
  case False
  define eb where "eb = emitted_blocks U t"
  have ne: "eb \<noteq> []" using False by (simp add: eb_def)
  have fin: "finalized U t = map (block_section U) eb" by (simp add: finalized_emitted eb_def)
  have good: "\<forall>b \<in> set eb. is_header_line U (fst b) \<and> (\<forall>l \<in> set (snd b). content_line U l)"
    and nonempty: "\<forall>b \<in> set eb. snd b \<noteq> []"
    using emitted_blocks_good(1,2,3)[of _ U t] by (auto simp: eb_def)
  let ?t2 = "reinsert_headers (original_headers U t) (finalized U t)"
  have t2: "?t2 = join_nl (concat (map block_lines eb))"
    unfolding fin original_headers_def eb_def[symmetric]
    by (rule reinsert_rebuilt[OF ne nonempty])
  have "split_nl ?t2 = concat (map block_lines eb)"
    unfolding t2 by (rule rebuilt_lines[OF eb_def ne])
  then have "split_blocks U (split_nl ?t2) = ([], eb)"
    using split_blocks_rebuilt[OF good] by simp
  then have "emitted_blocks U ?t2 = eb"
    using nonempty by (simp add: emitted_blocks_def filter_id_conv)
  then have "finalized U ?t2 = finalized U t" by (simp only: finalized_emitted eb_def)
  moreover have "finalized U t \<noteq> []" using ne fin by simp
  ultimately show ?thesis by (simp add: split_into_sections_eq)
qed
section \<open>Bullets are the marker-stripped lines\<close>

lemma rep_greedy_sound:
  "rep_greedy p lo hi n k s = Some fin \<Longrightarrow>
     \<exists>a b pv'. rest s = a @ b \<and> list_all p a \<and> lo \<le> n + length a \<and>
           k (MState pv' b (grp s)) = Some fin"
proof (induction p lo hi n k s rule: rep_greedy.induct)
  case (1 p lo hi n k pv g)
  then have "lo \<le> n" "k (MState pv [] g) = Some fin" by (auto split: if_splits)
  then show ?case by (intro exI[of _ "[]"] exI[of _ pv]) simp
next
  case (2 p lo hi n k pv c cs g)
  have stop: "lo \<le> n \<Longrightarrow> k (MState pv (c # cs) g) = Some fin \<Longrightarrow> ?case"
    by (intro exI[of _ "[]"] exI[of _ "c # cs"] exI[of _ pv]) simp
  show ?case
  proof (cases "p c \<and> (case hi of None \<Rightarrow> True | Some h \<Rightarrow> n < h)")
    case True
    show ?thesis
    proof (cases "rep_greedy p lo hi (Suc n) k (MState (Some c) cs g)")
      case None
      with True "2.prems" have "lo \<le> n" "k (MState pv (c # cs) g) = Some fin"
        by (auto split: if_splits)
      then show ?thesis by (rule stop)
    next
      case (Some r)
      with True "2.prems" have "rep_greedy p lo hi (Suc n) k (MState (Some c) cs g) = Some fin"
        by simp
      from "2.IH"[OF True this] obtain a b pv' where
        ab: "cs = a @ b" "list_all p a" "lo \<le> Suc n + length a"
          "k (MState pv' b g) = Some fin"
        by auto
      show ?thesis
        using ab True
        by (intro exI[of _ "c # a"] exI[of _ b] exI[of _ pv']) auto
    qed
  next
    case False
    with "2.prems" have "lo \<le> n" "k (MState pv (c # cs) g) = Some fin"
      by (auto split: if_splits)
    then show ?thesis by (rule stop)
  qed
qed

lemma rmatch_Cat_fun: "rmatch (Cat a b) k = rmatch a (rmatch b k)"
  by (rule ext) simp

lemma rmatch_Eps_fun: "rmatch Eps k = k"
  by (rule ext) simp

lemma rmatch_Rep_sound:
  assumes "rmatch (Rep p lo hi) k (MState pv s g) = Some fin"
  obtains a b pv' where "s = a @ b" "list_all p a" "lo \<le> length a"
    "k (MState pv' b g) = Some fin"
  using rep_greedy_sound[of p lo hi 0 k "MState pv s g" fin] assms by auto

lemma rmatch_Cls_sound:
  assumes "rmatch (Cls p) k (MState pv s g) = Some fin"
  obtains c cs where "s = c # cs" "p c" "k (MState (Some c) cs g) = Some fin"
  using assms by (cases s) (auto split: if_splits)

lemma strip_after_spaces: "list_all (space_ch U) a \<Longrightarrow> strip U (a @ b) = strip U b"
proof -
  assume "list_all (space_ch U) a"
  then have "dropWhile (space_ch U) (a @ b) = dropWhile (space_ch U) b"
    by (induction a) auto
  then show ?thesis by (simp add: strip_def lstrip_def)
qed

lemma lstrip_spaces_then:
  "list_all (space_ch U) a \<Longrightarrow> \<not> (space_ch U) c \<Longrightarrow> lstrip U (a @ c # cs) = c # cs"
  unfolding lstrip_def by (induction a) auto

lemma bullet_tail:
  assumes nl: "newline \<notin> set cs"
    and m: "rmatch (Cat (ws1 U) (Cat (Grp (Rep dot 1 None)) (Cat Eol Eps))) Some (MState pv cs g)
            = Some fin"
  shows "\<exists>gt. grp fin = Some gt \<and> strip U gt = strip U cs"
proof -
  from m have "rmatch (Rep (space_ch U) 1 None)
      (rmatch (Grp (Rep dot 1 None)) (rmatch (Cat Eol Eps) Some)) (MState pv cs g) = Some fin"
    by (simp add: ws1_def rmatch_Cat_fun)
  then obtain a b pv' where ab: "cs = a @ b" "list_all (space_ch U) a"
    and g: "rmatch (Grp (Rep dot 1 None)) (rmatch (Cat Eol Eps) Some) (MState pv' b g) = Some fin"
    by (rule rmatch_Rep_sound)
  from g have "rmatch (Rep dot 1 None)
     (\<lambda>s'. rmatch (Cat Eol Eps) Some
        (MState (prev s') (rest s') (Some (take (length b - length (rest s')) b))))
     (MState pv' b g) = Some fin"
    by simp
  then obtain a2 b2 pv2 where ab2: "b = a2 @ b2"
    and e: "rmatch (Cat Eol Eps) Some
        (MState (prev (MState pv2 b2 g)) (rest (MState pv2 b2 g))
           (Some (take (length b - length (rest (MState pv2 b2 g))) b))) = Some fin"
    by (rule rmatch_Rep_sound)
  from e have b2: "b2 = [] \<or> b2 = [newline]"
    and fin: "fin = MState pv2 b2 (Some (take (length b - length b2) b))"
    by (auto split: if_splits)
  from nl ab ab2 have "newline \<notin> set b2" by auto
  with b2 have "b2 = []" by auto
  with fin ab2 have "grp fin = Some b" by simp
  moreover have "strip U b = strip U cs" using ab strip_after_spaces by simp
  ultimately show ?thesis by simp
qed

lemma markers_ok_facts:
  assumes "markers_ok U"
  shows "c \<in> set bullet_symbols \<or> c = ord CHR ''*'' \<Longrightarrow> \<not> space_ch U c \<and> \<not> decimal_ch U c"
    and "decimal_ch U c \<Longrightarrow> \<not> space_ch U c"
    and "\<not> decimal_ch U (ord CHR ''.'')"
  using assms unfolding markers_ok_def list_all_iff by auto

lemma marker_not_space:
  "markers_ok U \<Longrightarrow> c \<in> set bullet_symbols \<or> c = ord CHR ''*'' \<or> decimal_ch U c
     \<Longrightarrow> \<not> space_ch U c"
  using markers_ok_facts(1,2) by blast

lemma digit_not_marker:
  "markers_ok U \<Longrightarrow> decimal_ch U c \<Longrightarrow> c \<notin> set bullet_symbols \<and> c \<noteq> ord CHR ''*''"
  using markers_ok_facts(1) by blast

lemma dropWhile_digits_dot:
  "markers_ok U \<Longrightarrow> list_all (decimal_ch U) d \<Longrightarrow>
     dropWhile (decimal_ch U) (d @ ord CHR ''.'' # cs) = ord CHR ''.'' # cs"
  by (induction d) (auto simp: markers_ok_facts(3))

lemma symbol_pattern_text:
  assumes ok: "markers_ok U"
    and nl: "newline \<notin> set l"
    and mk: "\<And>c. M c \<Longrightarrow> c \<in> set bullet_symbols \<or> c = ord CHR ''*''"
    and m: "rmatch (cats [Bol, (ws0 U), Cls M, (ws1 U), Grp (Rep dot 1 None), Eol]) Some
              (MState None l None) = Some fin"
  shows "\<exists>gt. grp fin = Some gt \<and> strip U gt = strip U (after_marker U l)"
proof -
  let ?tail = "Cat (ws1 U) (Cat (Grp (Rep dot 1 None)) (Cat Eol Eps))"
  from m have "rmatch (Rep (space_ch U) 0 None) (rmatch (Cls M) (rmatch ?tail Some))
                 (MState None l None) = Some fin"
    by (simp add: cats_def ws0_def rmatch_Cat_fun)
  then obtain a b pv' where ab: "l = a @ b" "list_all (space_ch U) a"
    and c: "rmatch (Cls M) (rmatch ?tail Some) (MState pv' b None) = Some fin"
    by (rule rmatch_Rep_sound)
  from c obtain c cs where b: "b = c # cs" "M c"
    and t: "rmatch ?tail Some (MState (Some c) cs None) = Some fin"
    by (rule rmatch_Cls_sound)
  from nl ab b have "newline \<notin> set cs" by auto
  from bullet_tail[OF this t] obtain gt where gt: "grp fin = Some gt" "strip U gt = strip U cs"
    by blast
  have "\<not> (space_ch U) c" using mk[OF b(2)] marker_not_space[OF ok] by blast
  then have "lstrip U l = c # cs" using ab b lstrip_spaces_then by simp
  then have "after_marker U l = cs" using mk[OF b(2)] by (simp add: after_marker_def)
  with gt show ?thesis by simp
qed

lemma number_pattern_text:
  assumes ok: "markers_ok U"
    and nl: "newline \<notin> set l"
    and m: "rmatch (cats [Bol, (ws0 U), Rep (decimal_ch U) 1 None, chr CHR ''.'', (ws1 U),
                          Grp (Rep dot 1 None), Eol]) Some (MState None l None) = Some fin"
  shows "\<exists>gt. grp fin = Some gt \<and> strip U gt = strip U (after_marker U l)"
proof -
  let ?tail = "Cat (ws1 U) (Cat (Grp (Rep dot 1 None)) (Cat Eol Eps))"
  let ?dot = "Cls (\<lambda>x. x = ord CHR ''.'')"
  from m have "rmatch (Rep (space_ch U) 0 None)
                 (rmatch (Rep (decimal_ch U) 1 None) (rmatch ?dot (rmatch ?tail Some)))
                 (MState None l None) = Some fin"
    by (simp add: cats_def ws0_def chr_def rmatch_Cat_fun)
  then obtain a b pv' where ab: "l = a @ b" "list_all (space_ch U) a"
    and d: "rmatch (Rep (decimal_ch U) 1 None) (rmatch ?dot (rmatch ?tail Some))
              (MState pv' b None) = Some fin"
    by (rule rmatch_Rep_sound)
  from d obtain ds b2 pv2 where b: "b = ds @ b2" "list_all (decimal_ch U) ds" "1 \<le> length ds"
    and p: "rmatch ?dot (rmatch ?tail Some) (MState pv2 b2 None) = Some fin"
    by (rule rmatch_Rep_sound)
  from p obtain c cs where b2: "b2 = c # cs" "c = ord CHR ''.''"
    and t: "rmatch ?tail Some (MState (Some c) cs None) = Some fin"
    by (rule rmatch_Cls_sound)
  from nl ab b b2 have "newline \<notin> set cs" by auto
  from bullet_tail[OF this t] obtain gt where gt: "grp fin = Some gt" "strip U gt = strip U cs"
    by blast
  from b(2,3) obtain d0 ds' where ds: "ds = d0 # ds'" "(decimal_ch U) d0" by (cases ds) auto
  then have "\<not> (space_ch U) d0" using marker_not_space[OF ok] by blast
  then have ls: "lstrip U l = d0 # (ds' @ ord CHR ''.'' # cs)"
    using ab b b2 ds lstrip_spaces_then[of U a d0 "ds' @ ord CHR ''.'' # cs"] by simp
  have "dropWhile (decimal_ch U) (d0 # (ds' @ ord CHR ''.'' # cs)) = ord CHR ''.'' # cs"
    using dropWhile_digits_dot[OF ok b(2), of cs] ds by simp
  then have "after_marker U l = cs"
    using ls digit_not_marker[OF ok ds(2)] by (simp add: after_marker_def)
  with gt show ?thesis by simp
qed

lemma bullet_match_text:
  assumes "p \<in> set (bullet_patterns U)" "newline \<notin> set l" "re_match p l = Some m"
    and ok: "markers_ok U"
  shows "\<exists>gt. group1 m = Some gt \<and> strip U gt = strip U (after_marker U l)"
proof -
  from assms(3) obtain fin where fin: "rmatch p Some (MState None l None) = Some fin"
    and g: "group1 m = grp fin"
    by (auto simp: re_match_def match_at_def split: option.splits)
  from assms(1) consider
      "p = cats [Bol, (ws0 U), Cls (\<lambda>c. c \<in> set bullet_symbols), (ws1 U), Grp (Rep dot 1 None), Eol]"
    | "p = cats [Bol, (ws0 U), chr CHR ''*'', (ws1 U), Grp (Rep dot 1 None), Eol]"
    | "p = cats [Bol, (ws0 U), Rep (decimal_ch U) 1 None, chr CHR ''.'', (ws1 U), Grp (Rep dot 1 None), Eol]"
    by (auto simp: bullet_patterns_def)
  then have "\<exists>gt. grp fin = Some gt \<and> strip U gt = strip U (after_marker U l)"
  proof cases
    case 1
    show ?thesis
      by (rule symbol_pattern_text[OF ok assms(2), of "\<lambda>c. c \<in> set bullet_symbols"])
         (use fin 1 in auto)
  next
    case 2
    show ?thesis
      by (rule symbol_pattern_text[OF ok assms(2), of "\<lambda>x. x = ord CHR ''*''"])
         (use fin 2 in \<open>auto simp: chr_def\<close>)
  next
    case 3
    show ?thesis
      by (rule number_pattern_text[OF ok assms(2)]) (use fin 3 in simp)
  qed
  with g show ?thesis by simp
qed

lemma first_bullet_text:
  assumes "set ps \<subseteq> set (bullet_patterns U)" "newline \<notin> set l" "markers_ok U"
  shows "first_bullet U ps l =
           Inr (if list_ex (\<lambda>p. re_match p l \<noteq> None) ps then Some (strip U (after_marker U l))
                else None)"
  using assms(1)
proof (induction ps)
  case Nil
  show ?case by simp
next
  case (Cons p ps)
  show ?case
  proof (cases "re_match p l")
    case None
    with Cons show ?thesis by simp
  next
    case (Some m)
    from Cons.prems have "p \<in> set (bullet_patterns U)" by simp
    from bullet_match_text[OF this assms(2) Some assms(3)] obtain gt where
      "group1 m = Some gt" "strip U gt = strip U (after_marker U l)" by blast
    with Some show ?thesis by simp
  qed
qed

lemma bullets_loop_text:
  "markers_ok U \<Longrightarrow> \<forall>l \<in> set ls. newline \<notin> set l \<Longrightarrow>
     bullets_loop U ls acc =
       Inr (acc @ map (\<lambda>l. strip U (after_marker U l)) (filter (matches_bullet_pattern U) ls))"
proof (induction ls arbitrary: acc)
  case Nil
  show ?case by simp
next
  case (Cons l ls)
  have f: "first_bullet U (bullet_patterns U) l =
           Inr (if matches_bullet_pattern U l then Some (strip U (after_marker U l)) else None)"
    using first_bullet_text[of "bullet_patterns U" U l] Cons.prems
    by (simp add: matches_bullet_pattern_def)
  show ?case using Cons f by simp
qed

lemma markers_ok_latin1: "markers_ok latin1"
  unfolding markers_ok_def
  by (simp add: latin1_def latin1_space_def latin1_decimal_def bullet_symbols_def ord_def)

text \<open>
  C8. Every line of the text that matches one of the three bullet patterns yields
  exactly one bullet, the text after its marker with the surrounding white space
  stripped; the other lines yield none, and the bullets come in the order of the lines.
  This uses of the character tables that a bullet symbol or an asterisk is neither white
  space nor a decimal digit, that a decimal digit is not white space, and that the period
  is not a decimal digit. With the tables of \<open>latin1\<close>, the line
  \<open>- Led a team of 5 engineers\<close> yields the single bullet \<open>Led a team of 5 engineers\<close>,
  and so does that line written with the bullet \<open>U+2022\<close>, a no-break space after it and
  blanks at its end.
\<close>

theorem bullets_are_marker_stripped_lines:
  "(markers_ok U \<longrightarrow>
      extract_bullet_points U t =
        Inr (map (\<lambda>l. strip U (after_marker U l))
               (filter (matches_bullet_pattern U) (split_nl t)))) \<and>
   extract_bullet_points latin1 (str ''- Led a team of 5 engineers'')
     = Inr [str ''Led a team of 5 engineers''] \<and>
   extract_bullet_points latin1 ([0x2022, 0xA0] @ str ''Led a team of 5 engineers  '')
     = Inr [str ''Led a team of 5 engineers'']"
proof (intro conjI impI)
  assume ok: "markers_ok U"
  show "extract_bullet_points U t =
     Inr (map (\<lambda>l. strip U (after_marker U l)) (filter (matches_bullet_pattern U) (split_nl t)))"
    using bullets_loop_text[OF ok, of "split_nl t" "[]"] split_nl_no_newline
    by (simp add: extract_bullet_points_def)
next
  show "extract_bullet_points latin1 (str ''- Led a team of 5 engineers'')
     = Inr [str ''Led a team of 5 engineers'']"
    by code_simp
  show "extract_bullet_points latin1 ([0x2022, 0xA0] @ str ''Led a team of 5 engineers  '')
     = Inr [str ''Led a team of 5 engineers'']"
    by code_simp
qed

theorem bullets_are_marker_stripped_lines_witness:
  "markers_ok latin1 \<and>
   extract_bullet_points latin1
       (str ''Team lead'' @ [newline, 0x25CF, 0x2003] @ str ''Led a team '' @ [newline]
        @ str ''2. Shipped it'')
     = Inr (map (\<lambda>l. strip latin1 (after_marker latin1 l))
              (filter (matches_bullet_pattern latin1)
                 (split_nl (str ''Team lead'' @ [newline, 0x25CF, 0x2003] @ str ''Led a team ''
                            @ [newline] @ str ''2. Shipped it'')))) \<and>
   map (\<lambda>l. strip latin1 (after_marker latin1 l))
     (filter (matches_bullet_pattern latin1)
        (split_nl (str ''Team lead'' @ [newline, 0x25CF, 0x2003] @ str ''Led a team ''
                   @ [newline] @ str ''2. Shipped it'')))
     = [str ''Led a team'', str ''Shipped it'']"
proof -
  let ?t = "str ''Team lead'' @ [newline, 0x25CF, 0x2003] @ str ''Led a team '' @ [newline]
        @ str ''2. Shipped it''"
  have ok: "markers_ok latin1" by (rule markers_ok_latin1)
  have e: "map (\<lambda>l. strip latin1 (after_marker latin1 l))
     (filter (matches_bullet_pattern latin1) (split_nl ?t))
     = [str ''Led a team'', str ''Shipped it'']"
    by code_simp
  from bullets_are_marker_stripped_lines[of latin1 ?t] ok e show ?thesis by simp
qed
section \<open>Names of known headers\<close>

lemma normalize_canonical:
  "normalize_section_name U line =
     (case canonical_name (upper_header U line) of
        Some name \<Rightarrow> name
      | None \<Rightarrow> str_title U (upper_header U line))"
  by (simp add: normalize_section_name_def canonical_name_def name_table_def upper_header_def
        contains_iff Let_def)

lemma occurs_in_code [code]: "occurs_in sub s = contains s sub"
  by (simp add: contains_iff)

text \<open>
  C4, as amended. A line matched by a known section-title pattern gets the canonical name
  of the first substring test, in the order of the chain of \<open>_normalize_section_name\<close>,
  that its upper-cased text passes: a header containing \<open>EXPERIENCE\<close> or \<open>EMPLOYMENT\<close>
  maps to \<open>Work Experience\<close> unless it contains \<open>SUMMARY\<close>, \<open>PROFILE\<close> or \<open>OBJECTIVE\<close>,
  which are tested first. With the tables of \<open>latin1\<close>, \<open>WORK EXPERIENCE\<close> yields
  \<open>Work Experience\<close>, \<open>Core Competencies\<close> yields \<open>Skills\<close>, and \<open>Projects\<close> followed by
  \<open>ummary\<close> written with a sharp s in front, whose upper case is \<open>SS\<close>, yields
  \<open>Professional Summary\<close>.
\<close>

theorem known_header_name:
  "(matches_known_pattern U line \<and> canonical_name (upper_header U line) = Some name
      \<longrightarrow> is_section_header U line = (True, Some name)) \<and>
   (matches_known_pattern U line \<and>
    (occurs_in (str ''EXPERIENCE'') (upper_header U line) \<or> occurs_in (str ''EMPLOYMENT'') (upper_header U line)) \<and>
    \<not> occurs_in (str ''SUMMARY'') (upper_header U line) \<and>
    \<not> occurs_in (str ''PROFILE'') (upper_header U line) \<and>
    \<not> occurs_in (str ''OBJECTIVE'') (upper_header U line)
      \<longrightarrow> is_section_header U line = (True, Some (str ''Work Experience''))) \<and>
   is_section_header latin1 (str ''WORK EXPERIENCE'') = (True, Some (str ''Work Experience'')) \<and>
   is_section_header latin1 (str ''Core Competencies'') = (True, Some (str ''Skills'')) \<and>
   is_section_header latin1 (str ''Projects '' @ [0xDF] @ str ''ummary'')
     = (True, Some (str ''Professional Summary''))"
proof (intro conjI impI)
  show "is_section_header latin1 (str ''WORK EXPERIENCE'') = (True, Some (str ''Work Experience''))"
    by code_simp
  show "is_section_header latin1 (str ''Core Competencies'') = (True, Some (str ''Skills''))"
    by code_simp
  show "is_section_header latin1 (str ''Projects '' @ [0xDF] @ str ''ummary'')
     = (True, Some (str ''Professional Summary''))"
    by code_simp
next
  assume "matches_known_pattern U line \<and> canonical_name (upper_header U line) = Some name"
  then show "is_section_header U line = (True, Some name)"
    by (simp add: is_section_header_def normalize_canonical)
next
  assume a: "matches_known_pattern U line \<and>
    (occurs_in (str ''EXPERIENCE'') (upper_header U line) \<or> occurs_in (str ''EMPLOYMENT'') (upper_header U line)) \<and>
    \<not> occurs_in (str ''SUMMARY'') (upper_header U line) \<and>
    \<not> occurs_in (str ''PROFILE'') (upper_header U line) \<and>
    \<not> occurs_in (str ''OBJECTIVE'') (upper_header U line)"
  then have "canonical_name (upper_header U line) = Some (str ''Work Experience'')"
    by (simp add: canonical_name_def name_table_def)
  with a show "is_section_header U line = (True, Some (str ''Work Experience''))"
    by (simp add: is_section_header_def normalize_canonical)
qed

theorem known_header_name_witness:
  "matches_known_pattern latin1 (str ''Employment History:'') \<and>
   canonical_name (upper_header latin1 (str ''Employment History:'')) = Some (str ''Work Experience'') \<and>
   (occurs_in (str ''EXPERIENCE'') (upper_header latin1 (str ''Employment History:''))
      \<or> occurs_in (str ''EMPLOYMENT'') (upper_header latin1 (str ''Employment History:''))) \<and>
   \<not> occurs_in (str ''SUMMARY'') (upper_header latin1 (str ''Employment History:'')) \<and>
   \<not> occurs_in (str ''PROFILE'') (upper_header latin1 (str ''Employment History:'')) \<and>
   \<not> occurs_in (str ''OBJECTIVE'') (upper_header latin1 (str ''Employment History:'')) \<and>
   is_section_header latin1 (str ''Employment History:'') = (True, Some (str ''Work Experience''))"
proof -
  have m: "matches_known_pattern latin1 (str ''Employment History:'')" by code_simp
  have u: "upper_header latin1 (str ''Employment History:'') = (str ''EMPLOYMENT HISTORY'')" by code_simp
  have c: "canonical_name (str ''EMPLOYMENT HISTORY'') = Some (str ''Work Experience'')"
    by code_simp
  have o: "occurs_in (str ''EMPLOYMENT'') (str ''EMPLOYMENT HISTORY'')"
    "\<not> occurs_in (str ''SUMMARY'') (str ''EMPLOYMENT HISTORY'')"
    "\<not> occurs_in (str ''PROFILE'') (str ''EMPLOYMENT HISTORY'')"
    "\<not> occurs_in (str ''OBJECTIVE'') (str ''EMPLOYMENT HISTORY'')"
    by code_simp+
  from known_header_name[of latin1 "str ''Employment History:''" "str ''Work Experience''"] m c o
  show ?thesis unfolding u by blast
qed

text \<open>
  The header \<open>EXPERIENCE SUMMARY\<close> matches a known pattern and contains \<open>EXPERIENCE\<close>,
  and its section name is \<open>Professional Summary\<close>.
\<close>

theorem experience_summary_header:
  "matches_known_pattern latin1 (str ''EXPERIENCE SUMMARY'') \<and>
   contains (str_upper latin1 (str ''EXPERIENCE SUMMARY'')) (str ''EXPERIENCE'') \<and>
   is_section_header latin1 (str ''EXPERIENCE SUMMARY'') = (True, Some (str ''Professional Summary'')) \<and>
   (str ''Professional Summary'') \<noteq> (str ''Work Experience'')"
  by code_simp

end
